theory Spec2Isabelle
  imports Main
begin

section \<open>Noughts and crosses: the game state\<close>

text \<open>
  The cells of the board hold one of the three one-character strings of
  \<^verbatim>\<open>NoughtsAndCrosses.__init__\<close>: \<^verbatim>\<open>EMPTY = ' '\<close>, \<^verbatim>\<open>NOUGHT = 'O'\<close>, \<^verbatim>\<open>CROSS = 'X'\<close>.
  The attribute \<^verbatim>\<open>next_player\<close> holds one of the same strings.
\<close>

datatype symbol = EMPTY | NOUGHT | CROSS

text \<open>
  The exceptions the modelled code can raise. OverflowError comes from numpy's
  conversion of an index to a machine integer. AttributeError is what a call on a
  receiver that is no game object raises; it only occurs in the store-level model.
\<close>

datatype error = ValueError | IndexError | KeyError | OverflowError | AttributeError

text \<open>
  A game state by value: the 3 x 3 numpy array \<^verbatim>\<open>board\<close> as a list of rows, and
  \<^verbatim>\<open>next_player\<close>.
\<close>

record state =
  board :: "symbol list list"
  next_player :: symbol

text \<open>\<^verbatim>\<open>flip_player = {CROSS: NOUGHT, NOUGHT: CROSS}\<close>; a lookup of another key raises KeyError.\<close>

definition flip_player :: "symbol \<rightharpoonup> symbol" where
  "flip_player = [CROSS \<mapsto> NOUGHT, NOUGHT \<mapsto> CROSS]"

text \<open>\<^verbatim>\<open>NoughtsAndCrosses()\<close>: the empty board, cross to move.\<close>

definition init_state :: state where
  "init_state = \<lparr>board = map (\<lambda>_. map (\<lambda>_. EMPTY) [0..<3]) [0..<3], next_player = CROSS\<rparr>"

text \<open>
  The class invariant: the array has shape (3, 3) (no method changes it) and
  \<^verbatim>\<open>next_player\<close> is one of the two players. Every state built from the initial one
  by \<^verbatim>\<open>move\<close> satisfies it (lemma \<open>reachable_wf\<close> below).
\<close>

definition wf_state :: "state \<Rightarrow> bool" where
  "wf_state s \<longleftrightarrow>
     length (board s) = 3 \<and> list_all (\<lambda>row. length row = 3) (board s) \<and>
     (next_player s = CROSS \<or> next_player s = NOUGHT)"

subsection \<open>Indexing the array\<close>

text \<open>
  numpy first converts each Python integer of an index to a signed 64-bit integer
  (\<^verbatim>\<open>npy_intp\<close> on a 64-bit platform). An integer that fits is taken as it is. One in \<open>2^63 .. 2^64 - 1\<close>
  becomes an unsigned 64-bit scalar, whose conversion raises OverflowError. Any other
  integer becomes an object scalar, which is no valid index: IndexError.
\<close>

definition as_intp :: "int \<Rightarrow> error + int" where
  "as_intp i =
     (if - (2 ^ 63) \<le> i \<and> i < 2 ^ 63 then Inr i
      else if 2 ^ 63 \<le> i \<and> i < 2 ^ 64 then Inl OverflowError
      else Inl IndexError)"

text \<open>
  A converted index \<open>i\<close> into an axis of length \<open>n\<close>, as numpy (and Python) read it:
  \<open>-n \<le> i < 0\<close> counts from the end, anything outside \<open>-n \<le> i < n\<close> raises IndexError.
\<close>

definition axis_index :: "nat \<Rightarrow> int \<Rightarrow> error + nat" where
  "axis_index n i =
     (if 0 \<le> i \<and> i < int n then Inr (nat i)
      else if - int n \<le> i \<and> i < 0 then Inr (nat (i + int n))
      else Inl IndexError)"

text \<open>
  The position \<^verbatim>\<open>[row, col]\<close> stands for in a two-dimensional array: both indices are
  converted, the row first, and only then checked against the shape, the row first.
\<close>

definition index2 :: "symbol list list \<Rightarrow> int \<Rightarrow> int \<Rightarrow> error + nat \<times> nat" where
  "index2 b row col =
     (case as_intp row of
        Inl e \<Rightarrow> Inl e
      | Inr i \<Rightarrow>
          (case as_intp col of
             Inl e \<Rightarrow> Inl e
           | Inr j \<Rightarrow>
               (case axis_index (length b) i of
                  Inl e \<Rightarrow> Inl e
                | Inr r \<Rightarrow>
                    (case axis_index (length (b ! r)) j of
                       Inl e \<Rightarrow> Inl e
                     | Inr c \<Rightarrow> Inr (r, c)))))"

text \<open>\<^verbatim>\<open>board[row, col]\<close> for caller-supplied integers.\<close>

definition getitem :: "symbol list list \<Rightarrow> int \<Rightarrow> int \<Rightarrow> error + symbol" where
  "getitem b row col =
     (case index2 b row col of Inl e \<Rightarrow> Inl e | Inr (r, c) \<Rightarrow> Inr (b ! r ! c))"

text \<open>\<^verbatim>\<open>board[row, col] = v\<close>, on a copy of the array.\<close>

definition setitem :: "symbol list list \<Rightarrow> int \<Rightarrow> int \<Rightarrow> symbol \<Rightarrow> error + symbol list list" where
  "setitem b row col v =
     (case index2 b row col of
        Inl e \<Rightarrow> Inl e
      | Inr (r, c) \<Rightarrow> Inr (b[r := (b ! r)[c := v]]))"

subsection \<open>\<^verbatim>\<open>valid_move\<close> and \<^verbatim>\<open>move\<close>\<close>

text \<open>\<^verbatim>\<open>return self.board[row, col] == self.EMPTY\<close>\<close>

definition valid_move :: "state \<Rightarrow> int \<Rightarrow> int \<Rightarrow> error + bool" where
  "valid_move s row col =
     (case getitem (board s) row col of Inl e \<Rightarrow> Inl e | Inr x \<Rightarrow> Inr (x = EMPTY))"

text \<open>
  \<^verbatim>\<open>move\<close> by value: the check, then the deep copy with the cell written and the player
  flipped. The result is the copy; \<open>s\<close> itself is the receiver, which the code never
  writes to (the store-level model below makes that explicit).
\<close>

definition move :: "state \<Rightarrow> int \<Rightarrow> int \<Rightarrow> error + state" where
  "move s row col =
     (case valid_move s row col of
        Inl e \<Rightarrow> Inl e
      | Inr ok \<Rightarrow>
          if \<not> ok then Inl ValueError
          else
            (case setitem (board s) row col (next_player s) of
               Inl e \<Rightarrow> Inl e
             | Inr b' \<Rightarrow>
                 (case flip_player (next_player s) of
                    None \<Rightarrow> Inl KeyError
                  | Some p \<Rightarrow> Inr \<lparr>board = b', next_player = p\<rparr>)))"

subsection \<open>\<^verbatim>\<open>move\<close> on the store\<close>

text \<open>
  The objects the methods work on, in a store addressed by position: a numpy array, and a
  \<^verbatim>\<open>NoughtsAndCrosses\<close> instance holding a reference to its \<^verbatim>\<open>board\<close> array and its
  \<^verbatim>\<open>next_player\<close>. (The other attributes are constants no method writes.) A new
  object is appended, so its address is the old length of the store.
\<close>

type_synonym addr = nat

datatype pyobj = Ndarray "symbol list list" | Game addr symbol

type_synonym heap = "pyobj list"

text \<open>The state a game object stands for; None where the address holds no game.\<close>

definition load :: "heap \<Rightarrow> addr \<Rightarrow> state option" where
  "load h a =
     (if a < length h then
        (case h ! a of
           Game ba p \<Rightarrow>
             (if ba < length h then
                (case h ! ba of
                   Ndarray b \<Rightarrow> Some \<lparr>board = b, next_player = p\<rparr>
                 | Game _ _ \<Rightarrow> None)
              else None)
         | Ndarray _ \<Rightarrow> None)
      else None)"

text \<open>
  \<^verbatim>\<open>copy.deepcopy(self)\<close>: a new array with the cells of the old one, and a new game
  object referring to the new array. Returns the store and the address of the copy.
\<close>

definition deepcopy :: "heap \<Rightarrow> state \<Rightarrow> heap \<times> addr" where
  "deepcopy h s = (h @ [Ndarray (board s), Game (length h) (next_player s)], Suc (length h))"

text \<open>
  \<^verbatim>\<open>move\<close> with \<open>self\<close> an address: the store after the call, and the exception raised
  or the address of the returned object. The two writes go to the copy:
  \<^verbatim>\<open>state.board[row, col] = state.next_player\<close> to the array the copy refers to,
  \<^verbatim>\<open>state.next_player = state.flip_player[state.next_player]\<close> to the copy itself.
\<close>

definition move_h :: "heap \<Rightarrow> addr \<Rightarrow> int \<Rightarrow> int \<Rightarrow> heap \<times> (error + addr)" where
  "move_h h self row col =
     (case load h self of
        None \<Rightarrow> (h, Inl AttributeError)
      | Some s \<Rightarrow>
          (case valid_move s row col of
             Inl e \<Rightarrow> (h, Inl e)
           | Inr ok \<Rightarrow>
               if \<not> ok then (h, Inl ValueError)
               else
                 (case deepcopy h s of
                    (h1, st) \<Rightarrow>
                      (case h1 ! st of
                         Ndarray _ \<Rightarrow> (h1, Inl AttributeError)
                       | Game ba p \<Rightarrow>
                           (case h1 ! ba of
                              Game _ _ \<Rightarrow> (h1, Inl AttributeError)
                            | Ndarray b \<Rightarrow>
                                (case setitem b row col p of
                                   Inl e \<Rightarrow> (h1, Inl e)
                                 | Inr b' \<Rightarrow>
                                     (let h2 = h1[ba := Ndarray b'] in
                                      case flip_player p of
                                        None \<Rightarrow> (h2, Inl KeyError)
                                      | Some q \<Rightarrow> (h2[st := Game ba q], Inr st))))))))"

subsection \<open>\<^verbatim>\<open>winner\<close>\<close>

text \<open>
  What \<^verbatim>\<open>winner\<close> returns: a cell of the board (the winner's symbol), the string
  \<^verbatim>\<open>'draw'\<close>, or \<^verbatim>\<open>False\<close>.
\<close>

datatype verdict = Won symbol | DRAW | NoWinner

text \<open>
  The loop \<^verbatim>\<open>for i in range(3)\<close>: row \<open>i\<close> (\<^verbatim>\<open>board[i, :]\<close>) against its first cell,
  then column \<open>i\<close> (\<^verbatim>\<open>board[:, i]\<close>) against its first cell, returning at the first
  match. The indices are the constants 0, 1, 2 of an array of shape (3, 3).
\<close>

fun winner_loop :: "symbol list list \<Rightarrow> nat list \<Rightarrow> symbol option" where
  "winner_loop b [] = None"
| "winner_loop b (i # is) =
     (if list_all (\<lambda>x. x = b ! i ! 0) (b ! i) \<and> b ! i ! 0 \<noteq> EMPTY then Some (b ! i ! 0)
      else if list_all (\<lambda>x. x = b ! 0 ! i) (map (\<lambda>row. row ! i) b) \<and> b ! 0 ! i \<noteq> EMPTY
        then Some (b ! 0 ! i)
      else winner_loop b is)"

definition winner :: "state \<Rightarrow> verdict" where
  "winner s =
     (let b = board s in
      case winner_loop b [0..<3] of
        Some w \<Rightarrow> Won w
      | None \<Rightarrow>
          if EMPTY \<noteq> b ! 0 ! 0 \<and> b ! 0 ! 0 = b ! 1 ! 1 \<and> b ! 1 ! 1 = b ! 2 ! 2 then Won (b ! 1 ! 1)
          else if EMPTY \<noteq> b ! 2 ! 0 \<and> b ! 2 ! 0 = b ! 1 ! 1 \<and> b ! 1 ! 1 = b ! 0 ! 2
            then Won (b ! 1 ! 1)
          else if list_all (list_all (\<lambda>x. x \<noteq> EMPTY)) b then DRAW
          else NoWinner)"

subsection \<open>\<^verbatim>\<open>actions\<close>\<close>

text \<open>
  \<^verbatim>\<open>np.nonzero(m)\<close> of a two-dimensional boolean array: the row indices and the column
  indices of the true entries, in row-major order.
\<close>

definition nonzero :: "bool list list \<Rightarrow> nat list \<times> nat list" where
  "nonzero m =
     (let ps = concat (map (\<lambda>(r, row). map (\<lambda>(c, x). (r, c)) (filter snd (enumerate 0 row)))
                          (enumerate 0 m))
      in (map fst ps, map snd ps))"

text \<open>
  \<^verbatim>\<open>row, col = np.nonzero(self.board == self.EMPTY)\<close>;
  \<^verbatim>\<open>return [(r, c) for r, c in zip(row, col)]\<close>
\<close>

definition actions :: "state \<Rightarrow> (int \<times> int) list" where
  "actions s =
     (case nonzero (map (map (\<lambda>x. x = EMPTY)) (board s)) of
        (row, col) \<Rightarrow> map (\<lambda>(r, c). (int r, int c)) (zip row col))"

text \<open>The cell at row \<open>r\<close>, column \<open>c\<close>, and the nine index pairs in row-major order.\<close>

definition cell :: "state \<Rightarrow> nat \<Rightarrow> nat \<Rightarrow> symbol" where
  "cell s r c = board s ! r ! c"

definition all_cells :: "(int \<times> int) list" where
  "all_cells = [(0, 0), (0, 1), (0, 2), (1, 0), (1, 1), (1, 2), (2, 0), (2, 1), (2, 2)]"

text \<open>How many cells hold the symbol \<open>x\<close>.\<close>

definition count_symbol :: "symbol \<Rightarrow> state \<Rightarrow> nat" where
  "count_symbol x s = length (filter (\<lambda>y. y = x) (concat (board s)))"

text \<open>
  The states built from \<^verbatim>\<open>NoughtsAndCrosses()\<close> by calls of \<^verbatim>\<open>move\<close> that return.
\<close>

inductive reachable :: "state \<Rightarrow> bool" where
  reachable_init: "reachable init_state"
| reachable_move: "reachable s \<Longrightarrow> move s row col = Inr s' \<Longrightarrow> reachable s'"

section \<open>The search agent\<close>

text \<open>
  The values the search compares: the integers 1, 0, -1 returned at finished games, and
  \<^verbatim>\<open>math.inf\<close>, \<^verbatim>\<open>-math.inf\<close> as the initial bounds. Python compares an integer with an
  infinite float exactly, so the order is the one of the integers with a least and a
  greatest element added.
\<close>

datatype extint = NegInf | Fin int | PosInf

instantiation extint :: linorder
begin

fun less_eq_extint :: "extint \<Rightarrow> extint \<Rightarrow> bool" where
  "less_eq_extint NegInf y = True"
| "less_eq_extint (Fin a) NegInf = False"
| "less_eq_extint (Fin a) (Fin b) = (a \<le> b)"
| "less_eq_extint (Fin a) PosInf = True"
| "less_eq_extint PosInf NegInf = False"
| "less_eq_extint PosInf (Fin b) = False"
| "less_eq_extint PosInf PosInf = True"

definition less_extint :: "extint \<Rightarrow> extint \<Rightarrow> bool" where
  "less_extint x y \<longleftrightarrow> x \<le> y \<and> \<not> y \<le> x"

instance
proof
  fix x y z :: extint
  show "(x < y) = (x \<le> y \<and> \<not> y \<le> x)"
    by (simp add: less_extint_def)
  show "x \<le> x"
    by (cases x) simp_all
  show "x \<le> y \<Longrightarrow> y \<le> z \<Longrightarrow> x \<le> z"
    by (cases x; cases y; cases z) simp_all
  show "x \<le> y \<Longrightarrow> y \<le> x \<Longrightarrow> x = y"
    by (cases x; cases y) simp_all
  show "x \<le> y \<or> y \<le> x"
    by (cases x; cases y) auto
qed

end

text \<open>Every call of \<^verbatim>\<open>move\<close> that returns fills an empty cell; the search ends for that reason.\<close>

lemma axis_index_less: "axis_index n i = Inr k \<Longrightarrow> k < n"
  by (auto simp: axis_index_def split: if_splits)

lemma index2_less: "index2 b row col = Inr (r, c) \<Longrightarrow> r < length b \<and> c < length (b ! r)"
  by (auto simp: index2_def split: sum.splits dest: axis_index_less)

lemma count_list_update:
  "c < length row \<Longrightarrow>
     length (filter (\<lambda>y. y = x) (row[c := v])) + (if row ! c = x then 1 else 0)
       = length (filter (\<lambda>y. y = x) row) + (if v = x then 1 else 0)"
proof (induction row arbitrary: c)
  case Nil
  then show ?case by simp
next
  case (Cons a row)
  show ?case
  proof (cases c)
    case 0
    then show ?thesis by simp
  next
    case (Suc n)
    with Cons.prems Cons.IH [of n] show ?thesis by (auto split: if_splits)
  qed
qed

lemma count_concat_update:
  "r < length b \<Longrightarrow> c < length (b ! r) \<Longrightarrow>
     length (filter (\<lambda>y. y = x) (concat (b[r := (b ! r)[c := v]]))) + (if b ! r ! c = x then 1 else 0)
       = length (filter (\<lambda>y. y = x) (concat b)) + (if v = x then 1 else 0)"
proof (induction b arbitrary: r)
  case Nil
  then show ?case by simp
next
  case (Cons row b)
  show ?case
  proof (cases r)
    case 0
    with Cons.prems show ?thesis
      using count_list_update [of c row x v] by simp
  next
    case (Suc r')
    with Cons.prems Cons.IH [of r'] show ?thesis by simp
  qed
qed

lemma move_counts:
  assumes "move s row col = Inr s'"
  shows "count_symbol x s' + (if x = EMPTY then 1 else 0)
           = count_symbol x s + (if x = next_player s then 1 else 0)"
    and "flip_player (next_player s) = Some (next_player s')"
proof -
  from assms obtain r c p where
    rc: "index2 (board s) row col = Inr (r, c)" and
    e: "board s ! r ! c = EMPTY" and
    p: "flip_player (next_player s) = Some p" and
    s': "s' = \<lparr>board = (board s)[r := (board s ! r)[c := next_player s]], next_player = p\<rparr>"
    by (auto simp: move_def valid_move_def getitem_def setitem_def
        split: sum.splits if_splits option.splits prod.splits)
  from index2_less [OF rc] have "r < length (board s)" "c < length (board s ! r)" by simp_all
  from count_concat_update [OF this, of x "next_player s"] e s'
  show "count_symbol x s' + (if x = EMPTY then 1 else 0)
           = count_symbol x s + (if x = next_player s then 1 else 0)"
    by (auto simp: count_symbol_def)
  from p s' show "flip_player (next_player s) = Some (next_player s')" by simp
qed

lemma move_fewer_empty:
  assumes "move s row col = Inr s'"
  shows "count_symbol EMPTY s' < count_symbol EMPTY s"
proof -
  from move_counts(2) [OF assms] have "next_player s \<noteq> EMPTY"
    by (auto simp: flip_player_def split: if_splits)
  with move_counts(1) [OF assms, of EMPTY] show ?thesis by simp
qed

subsection \<open>\<^verbatim>\<open>ABMinimaxAgent.get_value\<close>\<close>

text \<open>
  \<^verbatim>\<open>get_value\<close> and its loop \<^verbatim>\<open>for action in state.actions()\<close>. The loop carries
  \<^verbatim>\<open>alpha\<close>, \<^verbatim>\<open>beta\<close> and \<^verbatim>\<open>best_value\<close>; each \<^verbatim>\<open>return\<close> inside it ends the call.
\<close>

function get_value :: "state \<Rightarrow> symbol \<Rightarrow> bool \<Rightarrow> extint \<Rightarrow> extint \<Rightarrow> error + extint"
  and get_value_loop ::
    "state \<Rightarrow> symbol \<Rightarrow> bool \<Rightarrow> extint \<Rightarrow> extint \<Rightarrow> extint \<Rightarrow> (int \<times> int) list \<Rightarrow> error + extint"
  where
  "get_value s player get_min alpha beta =
     (case flip_player player of
        None \<Rightarrow> Inl KeyError
      | Some other_player \<Rightarrow>
          (let w = winner s in
           if w = Won player then Inr (Fin 1)
           else if w = Won other_player then Inr (Fin (- 1))
           else if w = DRAW then Inr (Fin 0)
           else get_value_loop s player get_min alpha beta
                  (if \<not> get_min then NegInf else PosInf) (actions s)))"
| "get_value_loop s player get_min alpha beta best_value [] = Inr best_value"
| "get_value_loop s player get_min alpha beta best_value (action # rest) =
     (case move s (fst action) (snd action) of
        Inl e \<Rightarrow> Inl e
      | Inr new_state \<Rightarrow>
          (case get_value new_state player (\<not> get_min) alpha beta of
             Inl e \<Rightarrow> Inl e
           | Inr action_value \<Rightarrow>
               if \<not> get_min then
                 (if action_value \<ge> beta then Inr action_value
                  else get_value_loop s player get_min (max alpha action_value) beta
                         (if action_value > best_value then action_value else best_value) rest)
               else
                 (if action_value \<le> alpha then Inr action_value
                  else get_value_loop s player get_min alpha (min beta action_value)
                         (if action_value < best_value then action_value else best_value) rest)))"
  by pat_completeness auto
termination
proof (relation "measures [\<lambda>x. case x of Inl (s, _) \<Rightarrow> count_symbol EMPTY s | Inr (s, _) \<Rightarrow> count_symbol EMPTY s,
                          \<lambda>x. case x of Inl _ \<Rightarrow> Suc 0 | Inr _ \<Rightarrow> 0,
                          \<lambda>x. case x of Inl _ \<Rightarrow> 0 | Inr (_, _, _, _, _, _, as) \<Rightarrow> length as]",
       goal_cases)
  case 1
  show ?case by simp
next
  case 2
  show ?case by simp
next
  case 3
  then show ?case by (simp add: move_fewer_empty)
next
  case 4
  then show ?case by simp
next
  case 5
  then show ?case by simp
qed

subsection \<open>\<^verbatim>\<open>ABMinimaxAgent.next_move\<close>\<close>

text \<open>
  The loop of \<^verbatim>\<open>next_move\<close>, carrying \<^verbatim>\<open>best_action\<close> and \<^verbatim>\<open>best_value\<close>. The two
  \<^verbatim>\<open>if\<close> statements run one after the other: the second one reads the
  \<^verbatim>\<open>best_value\<close> the first one may have just assigned.
\<close>

fun next_move_loop ::
  "state \<Rightarrow> symbol \<Rightarrow> (int \<times> int) list \<Rightarrow> extint \<Rightarrow> (int \<times> int) list \<Rightarrow> error + (int \<times> int) list"
  where
  "next_move_loop s player best_action best_value [] = Inr best_action"
| "next_move_loop s player best_action best_value (action # rest) =
     (case move s (fst action) (snd action) of
        Inl e \<Rightarrow> Inl e
      | Inr new_state \<Rightarrow>
          (case get_value new_state player True NegInf PosInf of
             Inl e \<Rightarrow> Inl e
           | Inr action_value \<Rightarrow>
               (let (best_action1, best_value1) =
                      (if action_value > best_value then ([action], action_value)
                       else (best_action, best_value));
                    best_action2 =
                      (if action_value = best_value1 then best_action1 @ [action]
                       else best_action1)
                in next_move_loop s player best_action2 best_value1 rest)))"

text \<open>The list \<^verbatim>\<open>best_action\<close> at the end of the loop: what \<^verbatim>\<open>random.choice\<close> is given.\<close>

definition best_actions :: "state \<Rightarrow> error + (int \<times> int) list" where
  "best_actions s = next_move_loop s (next_player s) [] NegInf (actions s)"

text \<open>
  \<^verbatim>\<open>random.choice(seq)\<close> raises IndexError on an empty sequence and returns
  \<^verbatim>\<open>seq[i]\<close> for a random index \<open>i\<close> below the length otherwise. The random draw is the
  argument \<open>rnd\<close>, reduced below the length.
\<close>

definition random_choice :: "nat \<Rightarrow> 'a list \<Rightarrow> error + 'a" where
  "random_choice rnd seq = (if seq = [] then Inl IndexError else Inr (seq ! (rnd mod length seq)))"

definition next_move :: "state \<Rightarrow> nat \<Rightarrow> error + (int \<times> int)" where
  "next_move s rnd =
     (case best_actions s of Inl e \<Rightarrow> Inl e | Inr best_action \<Rightarrow> random_choice rnd best_action)"

subsection \<open>Exhaustive minimax, the reference\<close>

text \<open>The positions one move away: the result of \<^verbatim>\<open>move\<close> for each of the given actions.\<close>

fun succs :: "state \<Rightarrow> (int \<times> int) list \<Rightarrow> state list" where
  "succs s [] = []"
| "succs s (a # as) =
     (case move s (fst a) (snd a) of Inl e \<Rightarrow> succs s as | Inr s' \<Rightarrow> s' # succs s as)"

definition successors :: "state \<Rightarrow> state list" where
  "successors s = succs s (actions s)"

lemma succs_move: "s' \<in> set (succs s as) \<Longrightarrow> \<exists>a \<in> set as. move s (fst a) (snd a) = Inr s'"
  by (induction as) (auto split: sum.splits)

lemma successors_fewer_empty:
  "s' \<in> set (successors s) \<Longrightarrow> count_symbol EMPTY s' < count_symbol EMPTY s"
  using succs_move [of s' s "actions s"] by (auto simp: successors_def move_fewer_empty)

text \<open>
  The game-theoretic value of a position for the player \<open>p\<close>, as the specification words
  it, with no pruning: at a finished game 1 if \<open>p\<close> has won, -1 if the opponent has
  won, 0 for a draw; otherwise the minimum (when \<open>get_min\<close>, the opponent's turn) or the
  maximum (the turn of \<open>p\<close>) of the values of all positions one move away. The player
  \<open>p\<close> is the same at every level.
\<close>

function minimax :: "state \<Rightarrow> symbol \<Rightarrow> bool \<Rightarrow> int" where
  "minimax s p get_min =
     (case winner s of
        Won w \<Rightarrow> if w = p then 1 else - 1
      | DRAW \<Rightarrow> 0
      | NoWinner \<Rightarrow>
          (let vs = map (\<lambda>s'. minimax s' p (\<not> get_min)) (successors s)
           in if get_min then Min (set vs) else Max (set vs)))"
  by pat_completeness auto
termination
  by (relation "measure (\<lambda>(s, p, get_min). count_symbol EMPTY s)")
    (auto simp: successors_fewer_empty)

declare minimax.simps [simp del]

declare get_value.simps [simp del]

subsection \<open>The window of a call and the value it stands for\<close>

text \<open>
  What a call with the window \<open>(alpha, beta)\<close> promises about its result \<open>v\<close>, where \<open>m\<close> is
  the exact value: a result at or below \<open>alpha\<close> is an upper bound of \<open>m\<close>, a result at or
  above \<open>beta\<close> is a lower bound, and a result strictly inside the window is exact.
\<close>

definition ab_ok :: "extint \<Rightarrow> extint \<Rightarrow> extint \<Rightarrow> extint \<Rightarrow> bool" where
  "ab_ok alpha beta m v \<longleftrightarrow>
     (v \<le> alpha \<longrightarrow> m \<le> v) \<and> (beta \<le> v \<longrightarrow> v \<le> m) \<and> (alpha < v \<and> v < beta \<longrightarrow> v = m)"

text \<open>
  The exact value the loop of \<^verbatim>\<open>get_value\<close> stands for when it has \<open>best\<close> in hand and
  the actions \<open>as\<close> still to try.
\<close>

definition loop_ref :: "state \<Rightarrow> symbol \<Rightarrow> bool \<Rightarrow> extint \<Rightarrow> (int \<times> int) list \<Rightarrow> extint" where
  "loop_ref s p get_min best as =
     (let vs = insert best ((\<lambda>s'. Fin (minimax s' p (\<not> get_min))) ` set (succs s as))
      in if get_min then Min vs else Max vs)"

subsection \<open>Example positions\<close>

text \<open>
  Nought to move with two empty cells, both moves leading to a draw; a position cross has
  already won with cells still empty; a full board with no line.
\<close>

definition tie_state :: state where
  "tie_state =
     \<lparr>board = [[CROSS, NOUGHT, CROSS], [CROSS, NOUGHT, EMPTY], [NOUGHT, CROSS, EMPTY]],
      next_player = NOUGHT\<rparr>"

definition won_state :: state where
  "won_state =
     \<lparr>board = [[CROSS, CROSS, CROSS], [NOUGHT, NOUGHT, EMPTY], [EMPTY, EMPTY, EMPTY]],
      next_player = NOUGHT\<rparr>"

definition drawn_state :: state where
  "drawn_state =
     \<lparr>board = [[CROSS, NOUGHT, CROSS], [CROSS, NOUGHT, NOUGHT], [NOUGHT, CROSS, CROSS]],
      next_player = NOUGHT\<rparr>"

subsection \<open>Notions the properties are stated with\<close>

text \<open>How many cells are not empty.\<close>

definition count_nonempty :: "state \<Rightarrow> nat" where
  "count_nonempty s = length (filter (\<lambda>y. y \<noteq> EMPTY) (concat (board s)))"

text \<open>
  The eight lines of the board, as index pairs, and what it means that one of them
  consists of three cells with the same symbol \<open>x\<close>, not the empty one.
\<close>

definition lines :: "(nat \<times> nat) list list" where
  "lines =
     [[(0, 0), (0, 1), (0, 2)], [(1, 0), (1, 1), (1, 2)], [(2, 0), (2, 1), (2, 2)],
      [(0, 0), (1, 0), (2, 0)], [(0, 1), (1, 1), (2, 1)], [(0, 2), (1, 2), (2, 2)],
      [(0, 0), (1, 1), (2, 2)], [(2, 0), (1, 1), (0, 2)]]"

definition has_line :: "state \<Rightarrow> symbol \<Rightarrow> bool" where
  "has_line s x \<longleftrightarrow> x \<noteq> EMPTY \<and> list_ex (list_all (\<lambda>(r, c). cell s r c = x)) lines"

text \<open>
  The same eight lines in the order in which \<^verbatim>\<open>winner\<close> looks at them (row 0, column 0,
  row 1, column 1, row 2, column 2, the main diagonal, the other diagonal), a line all
  of whose cells hold the symbol \<open>x\<close>, and the verdict read off the first complete line
  in that order.
\<close>

definition check_order :: "(nat \<times> nat) list list" where
  "check_order =
     [[(0, 0), (0, 1), (0, 2)], [(0, 0), (1, 0), (2, 0)],
      [(1, 0), (1, 1), (1, 2)], [(0, 1), (1, 1), (2, 1)],
      [(2, 0), (2, 1), (2, 2)], [(0, 2), (1, 2), (2, 2)],
      [(0, 0), (1, 1), (2, 2)], [(2, 0), (1, 1), (0, 2)]]"

definition complete :: "state \<Rightarrow> symbol \<Rightarrow> (nat \<times> nat) list \<Rightarrow> bool" where
  "complete s x l \<longleftrightarrow> x \<noteq> EMPTY \<and> list_all (\<lambda>(r, c). cell s r c = x) l"

definition first_line_verdict :: "state \<Rightarrow> verdict" where
  "first_line_verdict s =
     (case find (\<lambda>l. complete s CROSS l \<or> complete s NOUGHT l) check_order of
        Some l \<Rightarrow> Won (if complete s CROSS l then CROSS else NOUGHT)
      | None \<Rightarrow> if count_symbol EMPTY s = 0 then DRAW else NoWinner)"

text \<open>
  A board with a complete line of each player, the noughts in the row that is looked at
  first.
\<close>

definition nought_first_state :: state where
  "nought_first_state =
     \<lparr>board = [[NOUGHT, NOUGHT, NOUGHT], [CROSS, CROSS, CROSS], [EMPTY, EMPTY, EMPTY]],
      next_player = CROSS\<rparr>"

text \<open>A line of three cells decides the game when they are equal and not empty.\<close>

definition three :: "symbol \<Rightarrow> symbol \<Rightarrow> symbol \<Rightarrow> bool" where
  "three x y z \<longleftrightarrow> x \<noteq> EMPTY \<and> y = x \<and> z = x"

text \<open>
  Whose turn it is tells the difference of the counts: cross to move with as many
  crosses as noughts, or nought to move with one cross more.
\<close>

definition turn_invariant :: "state \<Rightarrow> bool" where
  "turn_invariant s \<longleftrightarrow>
     (next_player s = CROSS \<and> count_symbol CROSS s = count_symbol NOUGHT s) \<or>
     (next_player s = NOUGHT \<and> count_symbol CROSS s = Suc (count_symbol NOUGHT s))"

text \<open>
  A position with a complete line of each player, built by six calls of \<^verbatim>\<open>move\<close>
  (which does not look at the winner); and a store holding one game object.
\<close>

definition two_lines_state :: state where
  "two_lines_state =
     \<lparr>board = [[CROSS, CROSS, CROSS], [NOUGHT, NOUGHT, NOUGHT], [EMPTY, EMPTY, EMPTY]],
      next_player = CROSS\<rparr>"

definition tie_heap :: heap where
  "tie_heap = [Ndarray (board tie_state), Game 0 (next_player tie_state)]"

section \<open>Properties of the game state\<close>

lemma wf_board_shape:
  assumes "wf_state s"
  obtains a b c d e f g h i where "board s = [[a, b, c], [d, e, f], [g, h, i]]"
proof -
  have three: "\<And>xs :: symbol list. length xs = 3 \<Longrightarrow> \<exists>x y z. xs = [x, y, z]"
    by (auto simp: eval_nat_numeral length_Suc_conv)
  from assms obtain r0 r1 r2 where b: "board s = [r0, r1, r2]"
    by (auto simp: wf_state_def eval_nat_numeral length_Suc_conv)
  with assms have "length r0 = 3" "length r1 = 3" "length r2 = 3"
    by (auto simp: wf_state_def)
  with three b that show thesis by metis
qed

lemma flip_player_cases:
  "flip_player p = (if p = CROSS then Some NOUGHT else if p = NOUGHT then Some CROSS else None)"
  by (simp add: flip_player_def)

lemma wf_row_length: "wf_state s \<Longrightarrow> r < 3 \<Longrightarrow> length (board s ! r) = 3"
  by (simp add: wf_state_def list_all_length)

lemma as_intp_small: "- 3 \<le> i \<Longrightarrow> i < 3 \<Longrightarrow> as_intp i = Inr i"
  by (simp add: as_intp_def)

lemma index2_wf:
  assumes "wf_state s"
  shows "index2 (board s) row col =
     (case as_intp row of
        Inl e \<Rightarrow> Inl e
      | Inr i \<Rightarrow>
          (case as_intp col of
             Inl e \<Rightarrow> Inl e
           | Inr j \<Rightarrow>
               (case axis_index 3 i of
                  Inl e \<Rightarrow> Inl e
                | Inr r \<Rightarrow> (case axis_index 3 j of Inl e \<Rightarrow> Inl e | Inr c \<Rightarrow> Inr (r, c)))))"
proof -
  have len: "length (board s) = 3" using assms by (simp add: wf_state_def)
  have "length (board s ! r) = 3" if "axis_index 3 i = Inr r" for i r
    using wf_row_length [OF assms axis_index_less [OF that]] .
  then show ?thesis
    by (auto simp: index2_def len split: sum.splits)
qed

lemma index2_in_range:
  assumes "wf_state s" "0 \<le> row" "row \<le> 2" "0 \<le> col" "col \<le> 2"
  shows "index2 (board s) row col = Inr (nat row, nat col)"
  using assms(2-5) unfolding index2_wf [OF assms(1)]
  by (simp add: as_intp_small axis_index_def)

lemma move_wf:
  assumes "wf_state s"
  shows "move s row col =
     (case index2 (board s) row col of
        Inl e \<Rightarrow> Inl e
      | Inr (r, c) \<Rightarrow>
          if cell s r c \<noteq> EMPTY then Inl ValueError
          else Inr \<lparr>board = (board s)[r := (board s ! r)[c := next_player s]],
                    next_player = (if next_player s = CROSS then NOUGHT else CROSS)\<rparr>)"
proof -
  have np: "next_player s = CROSS \<or> next_player s = NOUGHT" using assms by (simp add: wf_state_def)
  show ?thesis
  proof (cases "index2 (board s) row col")
    case (Inl e)
    then show ?thesis by (simp add: move_def valid_move_def getitem_def)
  next
    case (Inr rc)
    with np show ?thesis
      by (cases rc)
        (auto simp: move_def valid_move_def getitem_def setitem_def cell_def flip_player_cases)
  qed
qed

lemma move_preserves_wf:
  assumes "wf_state s" "move s row col = Inr s'"
  shows "wf_state s'"
proof -
  from assms(2) obtain r c where
    r: "index2 (board s) row col = Inr (r, c)" and
    s': "s' = \<lparr>board = (board s)[r := (board s ! r)[c := next_player s]],
                next_player = (if next_player s = CROSS then NOUGHT else CROSS)\<rparr>"
    unfolding move_wf [OF assms(1)] by (auto split: sum.splits if_splits prod.splits)
  from index2_less [OF r] assms(1) have "r < 3" by (simp add: wf_state_def)
  then have "list_all (\<lambda>row. length row = 3) ((board s)[r := (board s ! r)[c := next_player s]])"
    using assms(1) by (simp add: wf_state_def list_all_length nth_list_update)
  with assms(1) s' show ?thesis by (simp add: wf_state_def)
qed

lemma actions_row_major:
  assumes "wf_state s"
  shows "actions s = filter (\<lambda>(r, c). cell s (nat r) (nat c) = EMPTY) all_cells"
proof -
  from assms obtain a b c d e f g h i where "board s = [[a, b, c], [d, e, f], [g, h, i]]"
    by (rule wf_board_shape)
  then show ?thesis
    by (simp add: actions_def nonzero_def all_cells_def cell_def enumerate_eq_zip)
qed

lemma action_legal:
  assumes "wf_state s" "a \<in> set (actions s)"
  shows "\<exists>s'. move s (fst a) (snd a) = Inr s' \<and> wf_state s'"
proof -
  from assms have "a \<in> set all_cells" and e: "cell s (nat (fst a)) (nat (snd a)) = EMPTY"
    by (auto simp: actions_row_major)
  then obtain r c where "a = (int r, int c)" "r < 3" "c < 3"
    by (auto simp: all_cells_def)
  with e have "\<exists>s'. move s (fst a) (snd a) = Inr s'"
    unfolding move_wf [OF assms(1)] by (simp add: index2_in_range [OF assms(1)])
  with assms(1) show ?thesis by (auto intro: move_preserves_wf)
qed

lemma winner_loop_not_empty: "winner_loop b is = Some w \<Longrightarrow> w \<noteq> EMPTY"
  by (induction "is") (auto split: if_splits)

lemma winner_not_empty: "winner s \<noteq> Won EMPTY"
  using winner_loop_not_empty [of "board s" "[0..<3]"]
  by (auto simp: winner_def Let_def split: option.splits)

lemma no_winner_has_action:
  assumes "wf_state s" "winner s = NoWinner"
  shows "actions s \<noteq> []"
proof -
  from assms(2) have "\<not> list_all (list_all (\<lambda>x. x \<noteq> EMPTY)) (board s)"
    by (simp add: winner_def Let_def split: option.splits if_splits)
  then obtain r c where "r < length (board s)" "c < length (board s ! r)" "board s ! r ! c = EMPTY"
    by (auto simp: list_all_length)
  with assms(1) have "(int r, int c) \<in> set all_cells" "cell s r c = EMPTY"
    by (auto simp: wf_state_def list_all_length all_cells_def cell_def less_Suc_eq eval_nat_numeral)
  then have "(int r, int c) \<in> set (actions s)"
    by (simp add: actions_row_major [OF assms(1)])
  then show ?thesis by auto
qed

subsection \<open>The example positions\<close>

lemma wf_tie_state: "wf_state tie_state"
  by (simp add: wf_state_def tie_state_def)

lemma winner_tie_state: "winner tie_state = NoWinner"
  by code_simp

lemma winner_won_state: "winner won_state = Won CROSS"
  by code_simp

lemma winner_drawn_state: "winner drawn_state = DRAW"
  by code_simp

subsection \<open>\<^verbatim>\<open>valid_move\<close>\<close>

lemma valid_move_index2:
  "valid_move s row col =
     (case index2 (board s) row col of
        Inl e \<Rightarrow> Inl e
      | Inr (r, c) \<Rightarrow> Inr (cell s r c = EMPTY))"
  by (simp add: valid_move_def getitem_def cell_def split: sum.splits prod.splits)

lemma axis_index_3_mod:
  "axis_index 3 i = (if - 3 \<le> i \<and> i < 3 then Inr (nat (i mod 3)) else Inl IndexError)"
proof -
  have "i mod 3 = i + 3" if "- 3 \<le> i" "i < 0"
  proof -
    have "(i + 3) mod 3 = i + 3" using that by (intro mod_pos_pos_trivial) auto
    then show ?thesis by simp
  qed
  then show ?thesis by (auto simp: axis_index_def)
qed

lemma index2_cases:
  assumes "wf_state s"
  shows "index2 (board s) row col =
     (if 2 ^ 63 \<le> row \<and> row < 2 ^ 64 then Inl OverflowError
      else if row < - (2 ^ 63) \<or> 2 ^ 64 \<le> row then Inl IndexError
      else if 2 ^ 63 \<le> col \<and> col < 2 ^ 64 then Inl OverflowError
      else if col < - (2 ^ 63) \<or> 2 ^ 64 \<le> col then Inl IndexError
      else if - 3 \<le> row \<and> row < 3 \<and> - 3 \<le> col \<and> col < 3
        then Inr (nat (row mod 3), nat (col mod 3))
      else Inl IndexError)"
  unfolding index2_wf [OF assms] as_intp_def axis_index_3_mod by simp

text \<open>
  Claim C10, amended. For a row and a column in 0..2 \<^verbatim>\<open>valid_move\<close> returns whether
  the cell is empty. Negative indices are numpy's: for a row and a column in -3..2 the
  call returns whether the cell at (row mod 3, col mod 3) is empty, so -1 is the last
  row or column. For every other pair of indices the call raises and returns no
  boolean. numpy converts both indices to machine integers, the row first, before it
  checks either against the shape: an index in \<open>2^63 .. 2^64 - 1\<close> raises OverflowError
  there, one below \<open>-2^63\<close> or from \<open>2^64\<close> on raises IndexError there, and when both
  convert, an index below -3 or above 2 raises IndexError.
\<close>

theorem valid_move_index_semantics:
  assumes "wf_state s"
  shows "(0 \<le> row \<and> row \<le> 2 \<and> 0 \<le> col \<and> col \<le> 2 \<longrightarrow>
            valid_move s row col = Inr (cell s (nat row) (nat col) = EMPTY)) \<and>
         (- 3 \<le> row \<and> row \<le> 2 \<and> - 3 \<le> col \<and> col \<le> 2 \<longrightarrow>
            valid_move s row col = Inr (cell s (nat (row mod 3)) (nat (col mod 3)) = EMPTY)) \<and>
         ((\<exists>b. valid_move s row col = Inr b) \<longleftrightarrow>
            - 3 \<le> row \<and> row \<le> 2 \<and> - 3 \<le> col \<and> col \<le> 2) \<and>
         (2 ^ 63 \<le> row \<and> row < 2 ^ 64 \<longrightarrow> valid_move s row col = Inl OverflowError) \<and>
         (row < - (2 ^ 63) \<or> 2 ^ 64 \<le> row \<longrightarrow> valid_move s row col = Inl IndexError) \<and>
         (- (2 ^ 63) \<le> row \<and> row < 2 ^ 63 \<and> 2 ^ 63 \<le> col \<and> col < 2 ^ 64 \<longrightarrow>
            valid_move s row col = Inl OverflowError) \<and>
         (- (2 ^ 63) \<le> row \<and> row < 2 ^ 63 \<and> (col < - (2 ^ 63) \<or> 2 ^ 64 \<le> col) \<longrightarrow>
            valid_move s row col = Inl IndexError) \<and>
         (- (2 ^ 63) \<le> row \<and> row < 2 ^ 63 \<and> - (2 ^ 63) \<le> col \<and> col < 2 ^ 63 \<and>
          (row < - 3 \<or> 2 < row \<or> col < - 3 \<or> 2 < col) \<longrightarrow>
            valid_move s row col = Inl IndexError)"
  unfolding valid_move_index2 index2_cases [OF assms] by auto

theorem valid_move_index_semantics_witness:
  "wf_state init_state \<and>
   valid_move init_state 1 2 = Inr True \<and>
   valid_move init_state (- 1) (- 3) = Inr True \<and>
   valid_move won_state (- 3) (- 1) = Inr False \<and>
   valid_move init_state 3 0 = Inl IndexError \<and>
   valid_move init_state 0 (- 4) = Inl IndexError \<and>
   valid_move init_state (2 ^ 63) 0 = Inl OverflowError \<and>
   valid_move init_state 5 (2 ^ 64 - 1) = Inl OverflowError \<and>
   valid_move init_state (2 ^ 64) 0 = Inl IndexError \<and>
   valid_move init_state 0 (- (2 ^ 63) - 1) = Inl IndexError"
proof -
  have wf: "wf_state init_state" "wf_state won_state" by code_simp+
  have c: "cell init_state 1 2 = EMPTY" "cell init_state 2 0 = EMPTY" "cell won_state 0 2 = CROSS"
    by code_simp+
  from valid_move_index_semantics [OF wf(1), of 1 2]
    valid_move_index_semantics [OF wf(1), of "- 1" "- 3"]
    valid_move_index_semantics [OF wf(2), of "- 3" "- 1"]
    valid_move_index_semantics [OF wf(1), of 3 0]
    valid_move_index_semantics [OF wf(1), of 0 "- 4"]
    valid_move_index_semantics [OF wf(1), of "2 ^ 63" 0]
    valid_move_index_semantics [OF wf(1), of 5 "2 ^ 64 - 1"]
    valid_move_index_semantics [OF wf(1), of "2 ^ 64" 0]
    valid_move_index_semantics [OF wf(1), of 0 "- (2 ^ 63) - 1"] wf c
  show ?thesis by simp
qed

text \<open>
  Claim C10 as stated fails at (-1, -1): the call returns \<^verbatim>\<open>True\<close> for the empty board
  and raises nothing.
\<close>

theorem valid_move_negative_index_counterexample:
  "valid_move init_state (- 1) (- 1) = Inr True \<and> valid_move init_state (- 1) (- 1) \<noteq> Inl IndexError"
  by code_simp

subsection \<open>\<^verbatim>\<open>actions\<close>\<close>

lemma concat_board_cells:
  assumes "wf_state s"
  shows "concat (board s) = map (\<lambda>(r, c). cell s (nat r) (nat c)) all_cells"
proof -
  from assms obtain a b c d e f g h i where "board s = [[a, b, c], [d, e, f], [g, h, i]]"
    by (rule wf_board_shape)
  then show ?thesis by (simp add: all_cells_def cell_def)
qed

lemma length_actions:
  assumes "wf_state s"
  shows "length (actions s) = count_symbol EMPTY s"
proof -
  have "(\<lambda>x. case x of (r, c) \<Rightarrow> cell s (nat r) (nat c) = EMPTY)
      = (\<lambda>y. y = EMPTY) \<circ> (\<lambda>(r, c). cell s (nat r) (nat c))"
    by (auto simp: fun_eq_iff)
  then show ?thesis
    unfolding count_symbol_def concat_board_cells [OF assms] actions_row_major [OF assms]
    by (simp add: filter_map)
qed

lemma length_concat_board: "wf_state s \<Longrightarrow> length (concat (board s)) = 9"
  by (simp add: concat_board_cells all_cells_def)

text \<open>
  Claim C7. On every board of the class (so on every reachable one) \<^verbatim>\<open>actions\<close>
  returns exactly the index pairs of the empty cells, in row-major order, and the
  length of the list plus the number of cells that are not empty is 9.
\<close>

theorem actions_empty_cells_row_major:
  assumes "wf_state s"
  shows "actions s = filter (\<lambda>(r, c). cell s (nat r) (nat c) = EMPTY) all_cells \<and>
         length (actions s) + count_nonempty s = 9"
proof -
  have "length (filter (\<lambda>y. y = EMPTY) (concat (board s))) +
        length (filter (\<lambda>y. \<not> y = EMPTY) (concat (board s))) = length (concat (board s))"
    by (rule sum_length_filter_compl)
  then have "length (actions s) + count_nonempty s = 9"
    using length_actions [OF assms] length_concat_board [OF assms]
    by (simp add: count_symbol_def count_nonempty_def)
  with actions_row_major [OF assms] show ?thesis by simp
qed

theorem actions_empty_cells_row_major_witness:
  "wf_state tie_state \<and> actions tie_state = [(1, 2), (2, 2)] \<and>
   filter (\<lambda>(r, c). cell tie_state (nat r) (nat c) = EMPTY) all_cells = [(1, 2), (2, 2)] \<and>
   count_nonempty tie_state = 7 \<and> length (actions tie_state) + count_nonempty tie_state = 9"
proof -
  have "actions tie_state = [(1, 2), (2, 2)]" by code_simp
  moreover have "count_nonempty tie_state = 7" by code_simp
  ultimately show ?thesis
    using actions_empty_cells_row_major [OF wf_tie_state] wf_tie_state by simp
qed

subsection \<open>\<^verbatim>\<open>move\<close>\<close>

lemma load_append: "load h a = Some s \<Longrightarrow> load (h @ xs) a = Some s"
  by (auto simp: load_def nth_append split: if_splits pyobj.splits)

lemma load_new:
  "load (h @ [Ndarray b, Game (length h) p]) (Suc (length h)) = Some \<lparr>board = b, next_player = p\<rparr>"
  by (simp add: load_def nth_append)

lemma move_h_refines:
  assumes "load h self = Some s"
  shows "case move s row col of
           Inl e \<Rightarrow> snd (move_h h self row col) = Inl e
         | Inr s' \<Rightarrow>
             move_h h self row col =
               (h @ [Ndarray (board s'), Game (length h) (next_player s')], Inr (Suc (length h)))"
  using assms
  by (auto simp: move_h_def move_def deepcopy_def nth_append Let_def list_update_append
      split: sum.splits option.splits)

lemma move_h_error_unchanged:
  assumes "load h self = Some s" "wf_state s" "move s row col = Inl e"
  shows "move_h h self row col = (h, Inl e)"
proof -
  from assms(3) have "(\<exists>e'. valid_move s row col = Inl e' \<and> e = e') \<or>
      (valid_move s row col = Inr False \<and> e = ValueError)"
    unfolding move_wf [OF assms(2)] valid_move_index2
    by (auto split: sum.splits if_splits prod.splits)
  with assms(1) show ?thesis by (auto simp: move_h_def)
qed

text \<open>
  Claim C6. For a game object in the store and a row and a column in 0..2, \<^verbatim>\<open>move\<close>
  raises the ValueError "Position not empty" (the specification's InvalidMove) exactly
  when the cell is not empty, and raises nothing else; when it raises, the store is
  the one before the call, so the receiver still stands for the same board and player.
\<close>

theorem move_fails_iff_occupied:
  assumes "load h self = Some s" "wf_state s" "0 \<le> row" "row \<le> 2" "0 \<le> col" "col \<le> 2"
  shows "(snd (move_h h self row col) = Inl ValueError \<longleftrightarrow> cell s (nat row) (nat col) \<noteq> EMPTY) \<and>
         ((\<exists>e. snd (move_h h self row col) = Inl e) \<longleftrightarrow> cell s (nat row) (nat col) \<noteq> EMPTY) \<and>
         (move s row col = Inl ValueError \<longleftrightarrow> cell s (nat row) (nat col) \<noteq> EMPTY) \<and>
         (\<forall>e. snd (move_h h self row col) = Inl e \<longrightarrow>
            fst (move_h h self row col) = h \<and> load (fst (move_h h self row col)) self = Some s)"
proof -
  have ix: "index2 (board s) row col = Inr (nat row, nat col)"
    by (rule index2_in_range [OF assms(2-6)])
  show ?thesis
  proof (cases "cell s (nat row) (nat col) = EMPTY")
    case True
    then obtain s' where "move s row col = Inr s'"
      unfolding move_wf [OF assms(2)] by (simp add: ix)
    with move_h_refines [OF assms(1), of row col] show ?thesis
      using True by simp
  next
    case False
    then have "move s row col = Inl ValueError"
      unfolding move_wf [OF assms(2)] by (simp add: ix)
    with move_h_error_unchanged [OF assms(1,2) this] False assms(1) show ?thesis
      by simp
  qed
qed

theorem move_fails_iff_occupied_witness:
  "load tie_heap 1 = Some tie_state \<and> wf_state tie_state \<and>
   cell tie_state 0 0 \<noteq> EMPTY \<and> move_h tie_heap 1 0 0 = (tie_heap, Inl ValueError) \<and>
   move tie_state 0 0 = Inl ValueError \<and>
   cell tie_state 1 2 = EMPTY \<and> (\<exists>a. snd (move_h tie_heap 1 1 2) = Inr a)"
proof -
  have ld: "load tie_heap 1 = Some tie_state" by code_simp
  have wf: "wf_state tie_state" by code_simp
  have c: "cell tie_state 0 0 \<noteq> EMPTY" "cell tie_state 1 2 = EMPTY" by code_simp+
  from move_fails_iff_occupied [OF ld wf, of 0 0] c(1)
  have "snd (move_h tie_heap 1 0 0) = Inl ValueError" "fst (move_h tie_heap 1 0 0) = tie_heap"
    "move tie_state 0 0 = Inl ValueError"
    by simp_all
  moreover from move_fails_iff_occupied [OF ld wf, of 1 2] c(2)
  have "\<exists>a. snd (move_h tie_heap 1 1 2) = Inr a"
    by (cases "snd (move_h tie_heap 1 1 2)") simp_all
  ultimately show ?thesis using ld wf c by (simp add: prod_eq_iff)
qed

lemma cell_update:
  assumes "wf_state s" "r < 3" "c < 3" "r' < 3" "c' < 3"
  shows "cell \<lparr>board = (board s)[r := (board s ! r)[c := v]], next_player = p\<rparr> r' c' =
     (if (r', c') = (r, c) then v else cell s r' c')"
  using assms wf_row_length [OF assms(1,2)]
  by (auto simp: cell_def wf_state_def nth_list_update)

text \<open>
  Claim C8. For a game object in the store and a legal move (a member of
  \<^verbatim>\<open>actions\<close>), \<^verbatim>\<open>move\<close> returns a new object: its target cell holds the mover's
  symbol, every other cell is as in the receiver, and the player is flipped. Every
  object that was in the store is unchanged, the receiver and its array among them, and
  the returned object is none of them.
\<close>

theorem move_frame:
  assumes "load h self = Some s" "wf_state s" "(row, col) \<in> set (actions s)"
  shows "\<exists>h' st s'. move_h h self row col = (h', Inr st) \<and> load h' st = Some s' \<and>
           move s row col = Inr s' \<and>
           cell s' (nat row) (nat col) = next_player s \<and>
           (\<forall>r c. r < 3 \<and> c < 3 \<and> (r, c) \<noteq> (nat row, nat col) \<longrightarrow> cell s' r c = cell s r c) \<and>
           flip_player (next_player s) = Some (next_player s') \<and>
           next_player s' \<noteq> next_player s \<and>
           load h' self = Some s \<and> length h \<le> st \<and> (\<forall>a < length h. h' ! a = h ! a)"
proof -
  from assms(2,3) have mem: "(row, col) \<in> set all_cells" and
    e: "cell s (nat row) (nat col) = EMPTY"
    by (auto simp: actions_row_major)
  then have rng: "nat row < 3" "nat col < 3" and
    ix: "index2 (board s) row col = Inr (nat row, nat col)"
    using index2_in_range [OF assms(2), of row col] by (auto simp: all_cells_def)
  let ?p = "if next_player s = CROSS then NOUGHT else CROSS"
  let ?s' = "\<lparr>board = (board s)[nat row := (board s ! nat row)[nat col := next_player s]],
              next_player = ?p\<rparr>"
  let ?h' = "h @ [Ndarray (board ?s'), Game (length h) (next_player ?s')]"
  have mv: "move s row col = Inr ?s'"
    unfolding move_wf [OF assms(2)] using e by (simp add: ix)
  with move_h_refines [OF assms(1), of row col]
  have mh: "move_h h self row col = (?h', Inr (Suc (length h)))" by simp
  have ld: "load ?h' (Suc (length h)) = Some ?s'"
    using load_new [of h "board ?s'" "next_player ?s'"] by simp
  have target: "cell ?s' (nat row) (nat col) = next_player s"
    using cell_update [OF assms(2) rng rng] by simp
  have others: "\<forall>r c. r < 3 \<and> c < 3 \<and> (r, c) \<noteq> (nat row, nat col) \<longrightarrow> cell ?s' r c = cell s r c"
    using cell_update [OF assms(2) rng] by simp
  have flip: "flip_player (next_player s) = Some (next_player ?s')" "next_player ?s' \<noteq> next_player s"
    using assms(2) by (auto simp: wf_state_def flip_player_cases)
  have old: "load ?h' self = Some s" "\<forall>a < length h. ?h' ! a = h ! a"
    using load_append [OF assms(1)] by (simp_all add: nth_append)
  from mh ld mv target others flip old show ?thesis
    by (intro exI [of _ ?h'] exI [of _ "Suc (length h)"] exI [of _ ?s']) simp
qed

theorem move_frame_witness:
  "load tie_heap 1 = Some tie_state \<and> wf_state tie_state \<and> (1, 2) \<in> set (actions tie_state) \<and>
   (\<exists>h' st s'. move_h tie_heap 1 1 2 = (h', Inr st) \<and> load h' st = Some s' \<and>
      cell s' 1 2 = NOUGHT \<and> cell s' 0 0 = cell tie_state 0 0 \<and> next_player s' = CROSS \<and>
      load h' 1 = Some tie_state \<and> length tie_heap \<le> st)"
proof -
  have ld: "load tie_heap 1 = Some tie_state" by code_simp
  have wf: "wf_state tie_state" by code_simp
  have a: "(1, 2) \<in> set (actions tie_state)" by code_simp
  have np: "next_player tie_state = NOUGHT" by code_simp
  from move_frame [OF ld wf a] obtain h' st s' where
    "move_h tie_heap 1 1 2 = (h', Inr st)" "load h' st = Some s'"
    "cell s' (nat 1) (nat 2) = next_player tie_state"
    "\<forall>r c. r < 3 \<and> c < 3 \<and> (r, c) \<noteq> (nat 1, nat 2) \<longrightarrow> cell s' r c = cell tie_state r c"
    "flip_player (next_player tie_state) = Some (next_player s')"
    "load h' 1 = Some tie_state" "length tie_heap \<le> st"
    by auto
  then have "move_h tie_heap 1 1 2 = (h', Inr st) \<and> load h' st = Some s' \<and>
      cell s' 1 2 = NOUGHT \<and> cell s' 0 0 = cell tie_state 0 0 \<and> next_player s' = CROSS \<and>
      load h' 1 = Some tie_state \<and> length tie_heap \<le> st"
    by (auto simp: np flip_player_cases)
  with ld wf a show ?thesis by blast
qed

subsection \<open>The counts of crosses and noughts\<close>

lemma turn_invariant_init: "turn_invariant init_state"
  by code_simp

lemma turn_invariant_move:
  assumes "turn_invariant s" "move s row col = Inr s'"
  shows "turn_invariant s'"
proof -
  note x = move_counts(1) [OF assms(2), of CROSS]
  note o = move_counts(1) [OF assms(2), of NOUGHT]
  note f = move_counts(2) [OF assms(2)]
  from assms(1) consider
    "next_player s = CROSS" "count_symbol CROSS s = count_symbol NOUGHT s" |
    "next_player s = NOUGHT" "count_symbol CROSS s = Suc (count_symbol NOUGHT s)"
    by (auto simp: turn_invariant_def)
  then show ?thesis
  proof cases
    case 1
    with x o f show ?thesis by (simp add: turn_invariant_def flip_player_cases)
  next
    case 2
    with x o f show ?thesis by (simp add: turn_invariant_def flip_player_cases)
  qed
qed

lemma reachable_turn_invariant: "reachable s \<Longrightarrow> turn_invariant s"
  by (induction rule: reachable.induct) (auto intro: turn_invariant_init turn_invariant_move)

lemma wf_init_state: "wf_state init_state"
  by code_simp

lemma reachable_wf: "reachable s \<Longrightarrow> wf_state s"
  by (induction rule: reachable.induct) (auto intro: wf_init_state move_preserves_wf)

lemma turn_invariant_diff:
  "turn_invariant s \<Longrightarrow> int (count_symbol CROSS s) - int (count_symbol NOUGHT s) \<in> {0, 1}"
  by (auto simp: turn_invariant_def)

text \<open>
  Claim C9. On every board reachable from the empty one by calls of \<^verbatim>\<open>move\<close> that
  return, the number of crosses minus the number of noughts is 0 or 1, and every legal
  move from such a board gives a board of which the same holds. The initial board has
  nine empty cells and cross to move, so it holds there. The step does not depend on
  how the board was reached: from any board on which the difference goes with the player
  to move (0 with cross to move, 1 with nought to move), a legal move gives such a board
  again.
\<close>

theorem cross_minus_nought_invariant:
  assumes "reachable s"
  shows "int (count_symbol CROSS s) - int (count_symbol NOUGHT s) \<in> {0, 1} \<and>
         (\<forall>row col s'. move s row col = Inr s' \<longrightarrow>
            int (count_symbol CROSS s') - int (count_symbol NOUGHT s') \<in> {0, 1}) \<and>
         (count_symbol EMPTY init_state = 9 \<and> next_player init_state = CROSS \<and>
          int (count_symbol CROSS init_state) - int (count_symbol NOUGHT init_state) \<in> {0, 1}) \<and>
         (\<forall>t row col t'. turn_invariant t \<longrightarrow> move t row col = Inr t' \<longrightarrow>
            turn_invariant t' \<and>
            int (count_symbol CROSS t') - int (count_symbol NOUGHT t') \<in> {0, 1})"
proof -
  have "count_symbol EMPTY init_state = 9" "next_player init_state = CROSS"
    by code_simp+
  moreover have "int (count_symbol CROSS s') - int (count_symbol NOUGHT s') \<in> {0, 1}"
    if "move s row col = Inr s'" for row col s'
    using turn_invariant_move [OF reachable_turn_invariant [OF assms] that]
    by (rule turn_invariant_diff)
  moreover have "turn_invariant t' \<and>
      int (count_symbol CROSS t') - int (count_symbol NOUGHT t') \<in> {0, 1}"
    if "turn_invariant t" "move t row col = Inr t'" for t row col t'
    using turn_invariant_move [OF that] turn_invariant_diff by blast
  ultimately show ?thesis
    using turn_invariant_diff [OF reachable_turn_invariant [OF assms]]
      turn_invariant_diff [OF turn_invariant_init] by blast
qed

lemma reachable_two_lines_state: "reachable two_lines_state"
proof -
  define s1 where "s1 = \<lparr>board = [[CROSS, EMPTY, EMPTY], [EMPTY, EMPTY, EMPTY], [EMPTY, EMPTY, EMPTY]], next_player = NOUGHT\<rparr>"
  define s2 where "s2 = \<lparr>board = [[CROSS, EMPTY, EMPTY], [NOUGHT, EMPTY, EMPTY], [EMPTY, EMPTY, EMPTY]], next_player = CROSS\<rparr>"
  define s3 where "s3 = \<lparr>board = [[CROSS, CROSS, EMPTY], [NOUGHT, EMPTY, EMPTY], [EMPTY, EMPTY, EMPTY]], next_player = NOUGHT\<rparr>"
  define s4 where "s4 = \<lparr>board = [[CROSS, CROSS, EMPTY], [NOUGHT, NOUGHT, EMPTY], [EMPTY, EMPTY, EMPTY]], next_player = CROSS\<rparr>"
  define s5 where "s5 = \<lparr>board = [[CROSS, CROSS, CROSS], [NOUGHT, NOUGHT, EMPTY], [EMPTY, EMPTY, EMPTY]], next_player = NOUGHT\<rparr>"
  have m1: "move init_state 0 0 = Inr s1" unfolding s1_def by code_simp
  have m2: "move s1 1 0 = Inr s2" unfolding s1_def s2_def by code_simp
  have m3: "move s2 0 1 = Inr s3" unfolding s2_def s3_def by code_simp
  have m4: "move s3 1 1 = Inr s4" unfolding s3_def s4_def by code_simp
  have m5: "move s4 0 2 = Inr s5" unfolding s4_def s5_def by code_simp
  have m6: "move s5 1 2 = Inr two_lines_state" unfolding s5_def by code_simp
  note r0 = reachable_init
  note r1 = reachable_move [OF r0 m1]
  note r2 = reachable_move [OF r1 m2]
  note r3 = reachable_move [OF r2 m3]
  note r4 = reachable_move [OF r3 m4]
  note r5 = reachable_move [OF r4 m5]
  show ?thesis by (rule reachable_move [OF r5 m6])
qed

theorem cross_minus_nought_invariant_witness:
  "reachable two_lines_state \<and>
   int (count_symbol CROSS two_lines_state) - int (count_symbol NOUGHT two_lines_state) = 0 \<and>
   turn_invariant two_lines_state \<and>
   (\<exists>s'. move two_lines_state 2 0 = Inr s' \<and> turn_invariant s' \<and>
      int (count_symbol CROSS s') - int (count_symbol NOUGHT s') \<in> {0, 1})"
proof -
  have c: "count_symbol CROSS two_lines_state = 3" "count_symbol NOUGHT two_lines_state = 3"
    by code_simp+
  have t: "turn_invariant two_lines_state" by code_simp
  have m: "move two_lines_state 2 0 =
      Inr \<lparr>board = [[CROSS, CROSS, CROSS], [NOUGHT, NOUGHT, NOUGHT], [CROSS, EMPTY, EMPTY]],
           next_player = NOUGHT\<rparr>" by code_simp
  from cross_minus_nought_invariant [OF reachable_two_lines_state] t m
  have "turn_invariant \<lparr>board = [[CROSS, CROSS, CROSS], [NOUGHT, NOUGHT, NOUGHT], [CROSS, EMPTY, EMPTY]],
           next_player = NOUGHT\<rparr> \<and>
      int (count_symbol CROSS \<lparr>board = [[CROSS, CROSS, CROSS], [NOUGHT, NOUGHT, NOUGHT], [CROSS, EMPTY, EMPTY]],
           next_player = NOUGHT\<rparr>) -
      int (count_symbol NOUGHT \<lparr>board = [[CROSS, CROSS, CROSS], [NOUGHT, NOUGHT, NOUGHT], [CROSS, EMPTY, EMPTY]],
           next_player = NOUGHT\<rparr>) \<in> {0, 1}"
    by blast
  with reachable_two_lines_state c t m show ?thesis by simp
qed

subsection \<open>\<^verbatim>\<open>winner\<close>\<close>

lemma range3: "[0..<3] = [0, 1, 2]"
  by code_simp

lemma winner_shape:
  assumes "board s = [[a, b, c], [d, e, f], [g, h, i]]"
  shows "winner s =
     (if three a b c then Won a
      else if three a d g then Won a
      else if three d e f then Won d
      else if three b e h then Won b
      else if three g h i then Won g
      else if three c f i then Won c
      else if three a e i then Won e
      else if three g e c then Won e
      else if count_symbol EMPTY s = 0 then DRAW
      else NoWinner)"
proof -
  have loop: "winner_loop (board s) [0..<3] =
     (if three a b c then Some a
      else if three a d g then Some a
      else if three d e f then Some d
      else if three b e h then Some b
      else if three g h i then Some g
      else if three c f i then Some c
      else None)"
    unfolding three_def
    by (simp add: assms range3 conj_commute conj_left_commute split del: if_split cong: if_cong)
  have cells: "board s ! 0 ! 0 = a" "board s ! 1 ! 1 = e" "board s ! 2 ! 2 = i"
    "board s ! 2 ! 0 = g" "board s ! 0 ! 2 = c"
    by (simp_all add: assms)
  have diag: "(EMPTY \<noteq> a \<and> a = e \<and> e = i) = three a e i"
    "(EMPTY \<noteq> g \<and> g = e \<and> e = c) = three g e c"
    by (auto simp: three_def)
  have full: "list_all (list_all (\<lambda>x. x \<noteq> EMPTY)) (board s) \<longleftrightarrow> count_symbol EMPTY s = 0"
    by (simp add: count_symbol_def filter_empty_conv list_all_iff)
  show ?thesis
    unfolding winner_def Let_def loop cells diag full
    by simp
qed

lemma line_iff: "(x \<noteq> EMPTY \<and> p = x \<and> q = x \<and> r = x) = (three p q r \<and> x = p)"
  by (auto simp: three_def)

lemma has_line_shape:
  assumes "board s = [[a, b, c], [d, e, f], [g, h, i]]"
  shows "has_line s x \<longleftrightarrow>
     three a b c \<and> x = a \<or> three d e f \<and> x = d \<or> three g h i \<and> x = g \<or>
     three a d g \<and> x = a \<or> three b e h \<and> x = b \<or> three c f i \<and> x = c \<or>
     three a e i \<and> x = a \<or> three g e c \<and> x = g"
proof -
  have "has_line s x \<longleftrightarrow>
     (x \<noteq> EMPTY \<and> a = x \<and> b = x \<and> c = x) \<or> (x \<noteq> EMPTY \<and> d = x \<and> e = x \<and> f = x) \<or>
     (x \<noteq> EMPTY \<and> g = x \<and> h = x \<and> i = x) \<or> (x \<noteq> EMPTY \<and> a = x \<and> d = x \<and> g = x) \<or>
     (x \<noteq> EMPTY \<and> b = x \<and> e = x \<and> h = x) \<or> (x \<noteq> EMPTY \<and> c = x \<and> f = x \<and> i = x) \<or>
     (x \<noteq> EMPTY \<and> a = x \<and> e = x \<and> i = x) \<or> (x \<noteq> EMPTY \<and> g = x \<and> e = x \<and> c = x)"
    by (simp add: has_line_def lines_def cell_def assms conj_disj_distribL)
  then show ?thesis by (simp only: line_iff)
qed

lemma three_diag_centre: "three a e i \<Longrightarrow> e = a" "three g e c \<Longrightarrow> e = g"
  by (auto simp: three_def)

lemma winner_Won_has_line:
  assumes "wf_state s" "winner s = Won x"
  shows "has_line s x"
proof -
  from assms(1) obtain a b c d e f g h i where b: "board s = [[a, b, c], [d, e, f], [g, h, i]]"
    by (rule wf_board_shape)
  from assms(2) show ?thesis
    unfolding winner_shape [OF b] has_line_shape [OF b]
    by (auto split: if_splits dest: three_diag_centre)
qed

lemma has_line_winner:
  assumes "wf_state s" "has_line s x"
  shows "\<exists>y. winner s = Won y"
proof -
  from assms(1) obtain a b c d e f g h i where b: "board s = [[a, b, c], [d, e, f], [g, h, i]]"
    by (rule wf_board_shape)
  from assms(2) show ?thesis
    unfolding winner_shape [OF b] has_line_shape [OF b]
    by auto
qed

lemma winner_not_Won:
  assumes "wf_state s" "\<forall>x. \<not> has_line s x"
  shows "winner s = (if count_symbol EMPTY s = 0 then DRAW else NoWinner)"
proof -
  from assms(1) obtain a b c d e f g h i where b: "board s = [[a, b, c], [d, e, f], [g, h, i]]"
    by (rule wf_board_shape)
  from assms(2) show ?thesis
    unfolding winner_shape [OF b] has_line_shape [OF b]
    by auto
qed

lemma complete_three:
  "(complete s CROSS [(r1, c1), (r2, c2), (r3, c3)] \<or> complete s NOUGHT [(r1, c1), (r2, c2), (r3, c3)])
     = three (cell s r1 c1) (cell s r2 c2) (cell s r3 c3)"
  "three (cell s r1 c1) (cell s r2 c2) (cell s r3 c3) \<Longrightarrow>
     (if complete s CROSS [(r1, c1), (r2, c2), (r3, c3)] then CROSS else NOUGHT) = cell s r1 c1"
  by (cases "cell s r1 c1"; auto simp: complete_def three_def)+

lemma find_chain:
  "find P [l1, l2, l3, l4, l5, l6, l7, l8] =
     (if P l1 then Some l1 else if P l2 then Some l2 else if P l3 then Some l3
      else if P l4 then Some l4 else if P l5 then Some l5 else if P l6 then Some l6
      else if P l7 then Some l7 else if P l8 then Some l8 else None)"
  by simp

lemma winner_first_line:
  assumes "wf_state s"
  shows "winner s = first_line_verdict s"
proof -
  from assms obtain a b c d e f g h i where b: "board s = [[a, b, c], [d, e, f], [g, h, i]]"
    by (rule wf_board_shape)
  have cells: "cell s 0 0 = a" "cell s 0 1 = b" "cell s 0 2 = c"
    "cell s 1 0 = d" "cell s 1 1 = e" "cell s 1 2 = f"
    "cell s 2 0 = g" "cell s 2 1 = h" "cell s 2 2 = i"
    by (simp_all add: cell_def b)
  have "first_line_verdict s =
     (if three a b c then Won a
      else if three a d g then Won a
      else if three d e f then Won d
      else if three b e h then Won b
      else if three g h i then Won g
      else if three c f i then Won c
      else if three a e i then Won a
      else if three g e c then Won g
      else if count_symbol EMPTY s = 0 then DRAW
      else NoWinner)"
    unfolding first_line_verdict_def check_order_def find_chain complete_three(1) cells
    using complete_three(2) [of s 0 0 0 1 0 2] complete_three(2) [of s 0 0 1 0 2 0]
      complete_three(2) [of s 1 0 1 1 1 2] complete_three(2) [of s 0 1 1 1 2 1]
      complete_three(2) [of s 2 0 2 1 2 2] complete_three(2) [of s 0 2 1 2 2 2]
      complete_three(2) [of s 0 0 1 1 2 2] complete_three(2) [of s 2 0 1 1 0 2]
    unfolding cells by simp
  then show ?thesis
    unfolding winner_shape [OF b] by (auto dest: three_diag_centre)
qed

text \<open>
  Claim C5, amended. \<^verbatim>\<open>winner\<close> returns a symbol exactly when some row, column or
  diagonal consists of three equal symbols other than the empty one, and the symbol it
  returns is that of the first such line in the order row 0, column 0, row 1, column 1,
  row 2, column 2, main diagonal, other diagonal; so when all complete lines hold one
  symbol \<open>x\<close>, it returns \<open>x\<close>. It returns \<^verbatim>\<open>'draw'\<close> exactly when there is no such
  line and no empty cell, and \<^verbatim>\<open>False\<close> exactly when there is no such line and some
  cell is empty. Three crosses in row 0 always give cross, and the empty board gives
  \<^verbatim>\<open>False\<close>.
\<close>

theorem winner_classification:
  assumes "wf_state s"
  shows "((\<exists>x. winner s = Won x) \<longleftrightarrow> (\<exists>x. has_line s x)) \<and>
         (\<forall>x. winner s = Won x \<longrightarrow> has_line s x) \<and>
         (\<forall>x. has_line s x \<and> (\<forall>y. has_line s y \<longrightarrow> y = x) \<longrightarrow> winner s = Won x) \<and>
         (winner s = DRAW \<longleftrightarrow> (\<forall>x. \<not> has_line s x) \<and> count_symbol EMPTY s = 0) \<and>
         (winner s = NoWinner \<longleftrightarrow> (\<forall>x. \<not> has_line s x) \<and> count_symbol EMPTY s \<noteq> 0) \<and>
         (cell s 0 0 = CROSS \<and> cell s 0 1 = CROSS \<and> cell s 0 2 = CROSS \<longrightarrow> winner s = Won CROSS) \<and>
         winner init_state = NoWinner \<and>
         winner s = first_line_verdict s"
proof -
  note first = winner_first_line [OF assms]
  note won = winner_Won_has_line [OF assms]
  note line = has_line_winner [OF assms]
  note none = winner_not_Won [OF assms]
  have some: "(\<exists>x. winner s = Won x) \<longleftrightarrow> (\<exists>x. has_line s x)"
    using won line by blast
  have only: "winner s = Won x" if "has_line s x" "\<forall>y. has_line s y \<longrightarrow> y = x" for x
    using that won line by blast
  have draw: "winner s = DRAW \<longleftrightarrow> (\<forall>x. \<not> has_line s x) \<and> count_symbol EMPTY s = 0"
    and prog: "winner s = NoWinner \<longleftrightarrow> (\<forall>x. \<not> has_line s x) \<and> count_symbol EMPTY s \<noteq> 0"
  proof -
    show "winner s = DRAW \<longleftrightarrow> (\<forall>x. \<not> has_line s x) \<and> count_symbol EMPTY s = 0"
    proof (cases "\<exists>x. has_line s x")
      case True
      then obtain x y where "has_line s x" "winner s = Won y" using line by blast
      then show ?thesis by auto
    next
      case False
      then have "winner s = (if count_symbol EMPTY s = 0 then DRAW else NoWinner)"
        using none by simp
      with False show ?thesis by simp
    qed
    show "winner s = NoWinner \<longleftrightarrow> (\<forall>x. \<not> has_line s x) \<and> count_symbol EMPTY s \<noteq> 0"
    proof (cases "\<exists>x. has_line s x")
      case True
      then obtain x y where "has_line s x" "winner s = Won y" using line by blast
      then show ?thesis by auto
    next
      case False
      then have "winner s = (if count_symbol EMPTY s = 0 then DRAW else NoWinner)"
        using none by simp
      with False show ?thesis by simp
    qed
  qed
  have row0: "winner s = Won CROSS"
    if "cell s 0 0 = CROSS \<and> cell s 0 1 = CROSS \<and> cell s 0 2 = CROSS"
  proof -
    from assms obtain a b c d e f g h i where b: "board s = [[a, b, c], [d, e, f], [g, h, i]]"
      by (rule wf_board_shape)
    with that have "three a b c" "a = CROSS" by (simp_all add: cell_def three_def)
    then show ?thesis unfolding winner_shape [OF b] by simp
  qed
  have init: "winner init_state = NoWinner" by code_simp
  from some won only draw prog row0 init first show ?thesis by blast
qed

theorem winner_classification_witness:
  "wf_state won_state \<and> winner won_state = Won CROSS \<and> has_line won_state CROSS \<and>
   cell won_state 0 0 = CROSS \<and> cell won_state 0 1 = CROSS \<and> cell won_state 0 2 = CROSS \<and>
   wf_state drawn_state \<and> winner drawn_state = DRAW \<and> count_symbol EMPTY drawn_state = 0 \<and>
   \<not> has_line drawn_state CROSS \<and> \<not> has_line drawn_state NOUGHT \<and>
   wf_state tie_state \<and> winner tie_state = NoWinner \<and> count_symbol EMPTY tie_state = 2 \<and>
   wf_state nought_first_state \<and> has_line nought_first_state CROSS \<and>
   has_line nought_first_state NOUGHT \<and>
   first_line_verdict nought_first_state = Won NOUGHT \<and>
   winner nought_first_state = Won NOUGHT"
proof -
  have wf: "wf_state won_state" "wf_state drawn_state" "wf_state tie_state"
    by code_simp+
  have wfn: "wf_state nought_first_state" by code_simp
  have both: "has_line nought_first_state CROSS" "has_line nought_first_state NOUGHT"
    "first_line_verdict nought_first_state = Won NOUGHT"
    by code_simp+
  from winner_classification [OF wfn]
  have "winner nought_first_state = first_line_verdict nought_first_state" by blast
  with both have first: "winner nought_first_state = Won NOUGHT" by simp
  have cells: "cell won_state 0 0 = CROSS \<and> cell won_state 0 1 = CROSS \<and> cell won_state 0 2 = CROSS"
    by code_simp
  have counts: "count_symbol EMPTY drawn_state = 0" "count_symbol EMPTY tie_state = 2"
    by code_simp+
  have lines: "has_line won_state CROSS" "\<not> has_line drawn_state CROSS"
    "\<not> has_line drawn_state NOUGHT"
    by code_simp+
  have w: "winner won_state = Won CROSS" "winner drawn_state = DRAW" "winner tie_state = NoWinner"
    by code_simp+
  from winner_classification [OF wf(1)] cells have "winner won_state = Won CROSS" by blast
  with wf wfn both first cells counts lines w show ?thesis by simp
qed

text \<open>
  Claim C5 as stated fails on a board with a complete line of each player: row 1 holds
  three noughts, and \<^verbatim>\<open>winner\<close> returns cross, whose row is looked at first. The board
  is reachable, since \<^verbatim>\<open>move\<close> does not look at the winner.
\<close>

theorem winner_two_lines_counterexample:
  "reachable two_lines_state \<and> has_line two_lines_state NOUGHT \<and>
   winner two_lines_state = Won CROSS \<and> winner two_lines_state \<noteq> Won NOUGHT"
proof -
  have "has_line two_lines_state NOUGHT \<and>
   winner two_lines_state = Won CROSS \<and> winner two_lines_state \<noteq> Won NOUGHT"
    by code_simp
  with reachable_two_lines_state show ?thesis by simp
qed

section \<open>Alpha-beta pruning against exhaustive minimax\<close>

lemma ab_ok_refl: "ab_ok alpha beta v v"
  by (simp add: ab_ok_def)

lemma max_cut:
  "ab_ok alpha beta ma va \<Longrightarrow> beta \<le> va \<Longrightarrow> alpha < beta \<Longrightarrow> ab_ok alpha beta (max ma X) va"
  by (auto simp: ab_ok_def max_def)

lemma max_go:
  "ab_ok alpha beta ma va \<Longrightarrow> \<not> beta \<le> va \<Longrightarrow> alpha < beta \<Longrightarrow>
   ab_ok (max alpha va) beta (max va X) v \<Longrightarrow> ab_ok alpha beta (max ma X) v"
  unfolding ab_ok_def max_def
  by (auto split: if_splits)

lemma min_cut:
  "ab_ok alpha beta ma va \<Longrightarrow> va \<le> alpha \<Longrightarrow> alpha < beta \<Longrightarrow> ab_ok alpha beta (min ma X) va"
  by (auto simp: ab_ok_def min_def)

lemma min_go:
  "ab_ok alpha beta ma va \<Longrightarrow> \<not> va \<le> alpha \<Longrightarrow> alpha < beta \<Longrightarrow>
   ab_ok alpha (min beta va) (min va X) v \<Longrightarrow> ab_ok alpha beta (min ma X) v"
  unfolding ab_ok_def min_def
  by (auto split: if_splits)

lemma if_less_max: "(if (b::extint) < v then v else b) = max b v"
  by (auto simp: max_def)

lemma if_less_min: "(if (v::extint) < b then v else b) = min b v"
  by (auto simp: min_def)

lemma Max_insert_insert:
  "finite A \<Longrightarrow> Max (insert (b::extint) (insert m A)) = max m (Max (insert b A))"
  by (cases "A = {}") (auto simp: max.commute max.left_commute min.commute min.left_commute)

lemma Min_insert_insert:
  "finite A \<Longrightarrow> Min (insert (b::extint) (insert m A)) = min m (Min (insert b A))"
  by (cases "A = {}") (auto simp: max.commute max.left_commute min.commute min.left_commute)

lemma Max_insert_max:
  "finite A \<Longrightarrow> Max (insert (max b v) A) = max v (Max (insert (b::extint) A))"
  by (cases "A = {}") (auto simp: max.commute max.left_commute max.assoc)

lemma Min_insert_min:
  "finite A \<Longrightarrow> Min (insert (min b v) A) = min v (Min (insert (b::extint) A))"
  by (cases "A = {}") (auto simp: min.commute min.left_commute min.assoc)

lemma Fin_mono: "mono Fin"
  by (simp add: mono_def)

lemma Max_Fin: "finite A \<Longrightarrow> A \<noteq> {} \<Longrightarrow> Max (insert NegInf (Fin ` A)) = Fin (Max A)"
  using mono_Max_commute [OF Fin_mono, of A] by (simp add: max_def)

lemma Min_Fin: "finite A \<Longrightarrow> A \<noteq> {} \<Longrightarrow> Min (insert PosInf (Fin ` A)) = Fin (Min A)"
  using mono_Min_commute [OF Fin_mono, of A] by (simp add: min_def)

lemma loop_ref_Nil: "loop_ref s p get_min best [] = best"
  by (simp add: loop_ref_def Let_def)

lemma loop_ref_Cons:
  assumes "move s (fst a) (snd a) = Inr s'"
  shows "loop_ref s p get_min best (a # as) =
     (if get_min then min (Fin (minimax s' p (\<not> get_min))) (loop_ref s p get_min best as)
      else max (Fin (minimax s' p (\<not> get_min))) (loop_ref s p get_min best as))"
  using assms by (simp add: loop_ref_def Let_def Max_insert_insert Min_insert_insert del: Max.insert Min.insert Max_insert Min_insert)

lemma loop_ref_best:
  "loop_ref s p get_min (if get_min then min best v else max best v) as =
     (if get_min then min v (loop_ref s p get_min best as)
      else max v (loop_ref s p get_min best as))"
  by (simp add: loop_ref_def Let_def Max_insert_max Min_insert_min del: Max.insert Min.insert Max_insert Min_insert)

lemma minimax_unfold:
  "minimax s p get_min =
     (case winner s of
        Won w \<Rightarrow> if w = p then 1 else - 1
      | DRAW \<Rightarrow> 0
      | NoWinner \<Rightarrow>
          (let vs = map (\<lambda>s'. minimax s' p (\<not> get_min)) (successors s)
           in if get_min then Min (set vs) else Max (set vs)))"
  by (rule minimax.simps)

lemma successors_nonempty:
  assumes "wf_state s" "winner s = NoWinner"
  shows "successors s \<noteq> []"
proof -
  from assms obtain a as where a: "actions s = a # as"
    using no_winner_has_action by (cases "actions s") auto
  with assms(1) obtain s' where "move s (fst a) (snd a) = Inr s'"
    using action_legal [of s a] by auto
  with a show ?thesis by (simp add: successors_def)
qed

lemma loop_ref_minimax:
  assumes "wf_state s" "winner s = NoWinner"
  shows "loop_ref s p get_min (if \<not> get_min then NegInf else PosInf) (actions s) = Fin (minimax s p get_min)"
proof -
  let ?A = "(\<lambda>s'. minimax s' p (\<not> get_min)) ` set (successors s)"
  have ne: "?A \<noteq> {}" using successors_nonempty [OF assms] by simp
  have fin: "finite ?A" by simp
  have img: "(\<lambda>s'. Fin (minimax s' p (\<not> get_min))) ` set (successors s) = Fin ` ?A"
    by (simp add: image_image)
  have m: "minimax s p get_min = (if get_min then Min ?A else Max ?A)"
    by (subst minimax_unfold) (simp add: assms(2) Let_def)
  show ?thesis
    unfolding loop_ref_def Let_def successors_def [symmetric] img m
    using Max_Fin [OF fin ne] Min_Fin [OF fin ne] by (cases get_min) simp_all
qed

lemma get_value_Won:
  assumes "p = CROSS \<or> p = NOUGHT" "winner s = Won w"
  shows "get_value s p get_min alpha beta = Inr (Fin (if w = p then 1 else - 1))"
proof -
  from winner_not_empty [of s] assms(2) have "w \<noteq> EMPTY" by auto
  with assms show ?thesis
    by (subst get_value.simps) (cases w; auto simp: flip_player_cases Let_def)
qed

lemma get_value_DRAW:
  assumes "p = CROSS \<or> p = NOUGHT" "winner s = DRAW"
  shows "get_value s p get_min alpha beta = Inr (Fin 0)"
  using assms by (subst get_value.simps) (auto simp: flip_player_cases Let_def)

lemma get_value_NoWinner:
  assumes "p = CROSS \<or> p = NOUGHT" "winner s = NoWinner"
  shows "get_value s p get_min alpha beta =
     get_value_loop s p get_min alpha beta (if \<not> get_min then NegInf else PosInf) (actions s)"
  using assms by (subst get_value.simps) (auto simp: flip_player_cases Let_def)

lemma get_value_ab:
  "wf_state s \<Longrightarrow> p = CROSS \<or> p = NOUGHT \<Longrightarrow> alpha < beta \<Longrightarrow>
     \<exists>v. get_value s p get_min alpha beta = Inr v \<and> ab_ok alpha beta (Fin (minimax s p get_min)) v"
  and get_value_loop_ab:
  "wf_state s \<Longrightarrow> p = CROSS \<or> p = NOUGHT \<Longrightarrow> alpha < beta \<Longrightarrow> set as \<subseteq> set (actions s) \<Longrightarrow>
     \<exists>v. get_value_loop s p get_min alpha beta best as = Inr v \<and>
         ab_ok alpha beta (loop_ref s p get_min best as) v"
proof (induction s p get_min alpha beta and s p get_min alpha beta best as
    rule: get_value_get_value_loop.induct)
  case (1 s player get_min alpha beta)
  note p = \<open>player = CROSS \<or> player = NOUGHT\<close>
  show ?case
  proof (cases "winner s")
    case (Won w)
    have "minimax s player get_min = (if w = player then 1 else - 1)"
      by (subst minimax.simps) (simp add: Won)
    with get_value_Won [OF p Won] show ?thesis by (simp add: ab_ok_refl)
  next
    case DRAW
    have "minimax s player get_min = 0"
      by (subst minimax.simps) (simp add: DRAW)
    with get_value_DRAW [OF p DRAW] show ?thesis by (simp add: ab_ok_refl)
  next
    case NoWinner
    from p obtain q where q: "flip_player player = Some q"
      by (auto simp: flip_player_cases)
    have "\<exists>v. get_value_loop s player get_min alpha beta (if \<not> get_min then NegInf else PosInf) (actions s) = Inr v \<and>
         ab_ok alpha beta (loop_ref s player get_min (if \<not> get_min then NegInf else PosInf) (actions s)) v"
      using "1.IH" [OF q refl] "1.prems" NoWinner by simp
    then show ?thesis
      by (simp only: get_value_NoWinner [OF p NoWinner] loop_ref_minimax [OF "1.prems"(1) NoWinner])
  qed
next
  case (2 s player get_min alpha beta best_value)
  show ?case by (simp add: loop_ref_Nil ab_ok_refl)
next
  case (3 s player get_min alpha beta best_value action rest)
  note wf = \<open>wf_state s\<close> and p = \<open>player = CROSS \<or> player = NOUGHT\<close> and ab = \<open>alpha < beta\<close>
  from "3.prems"(4) have a: "action \<in> set (actions s)" and rest: "set rest \<subseteq> set (actions s)"
    by auto
  from action_legal [OF wf a] obtain s' where
    mv: "move s (fst action) (snd action) = Inr s'" and wf': "wf_state s'" by auto
  from "3.IH"(1) [OF mv wf' p ab] obtain va where
    va: "get_value s' player (\<not> get_min) alpha beta = Inr va" and
    ok: "ab_ok alpha beta (Fin (minimax s' player (\<not> get_min))) va" by auto
  let ?X = "loop_ref s player get_min best_value rest"
  have ref: "loop_ref s player get_min best_value (action # rest) =
      (if get_min then min (Fin (minimax s' player (\<not> get_min))) ?X
       else max (Fin (minimax s' player (\<not> get_min))) ?X)"
    by (rule loop_ref_Cons [OF mv])
  show ?case
  proof (cases get_min)
    case False
    show ?thesis
    proof (cases "beta \<le> va")
      case True
      with mv va False have "get_value_loop s player get_min alpha beta best_value (action # rest) = Inr va"
        by simp
      moreover have "ab_ok alpha beta (loop_ref s player get_min best_value (action # rest)) va"
        using max_cut [OF ok True ab, of ?X] False unfolding ref by simp
      ultimately show ?thesis by simp
    next
      case nocut: False
      then have ab': "max alpha va < beta" using ab by simp
      from "3.IH"(2) [OF mv va False nocut wf p ab' rest] obtain v where
        v: "get_value_loop s player get_min (max alpha va) beta
              (if best_value < va then va else best_value) rest = Inr v" and
        okv: "ab_ok (max alpha va) beta
              (loop_ref s player get_min (if best_value < va then va else best_value) rest) v"
        by auto
      have "loop_ref s player get_min (if best_value < va then va else best_value) rest = max va ?X"
        using loop_ref_best [of s player get_min best_value va rest] False
        by (simp add: if_less_max)
      with okv have "ab_ok (max alpha va) beta (max va ?X) v" by simp
      from max_go [OF ok nocut ab this]
      have "ab_ok alpha beta (loop_ref s player get_min best_value (action # rest)) v"
        using False unfolding ref by simp
      moreover from mv va False nocut v
      have "get_value_loop s player get_min alpha beta best_value (action # rest) = Inr v"
        by simp
      ultimately show ?thesis by simp
    qed
  next
    case True
    show ?thesis
    proof (cases "va \<le> alpha")
      case cut: True
      with mv va True have "get_value_loop s player get_min alpha beta best_value (action # rest) = Inr va"
        by simp
      moreover have "ab_ok alpha beta (loop_ref s player get_min best_value (action # rest)) va"
        using min_cut [OF ok cut ab, of ?X] True unfolding ref by simp
      ultimately show ?thesis by simp
    next
      case nocut: False
      then have ab': "alpha < min beta va" using ab by simp
      from "3.IH"(3) [OF mv va _ nocut wf p ab' rest] True obtain v where
        v: "get_value_loop s player get_min alpha (min beta va)
              (if va < best_value then va else best_value) rest = Inr v" and
        okv: "ab_ok alpha (min beta va)
              (loop_ref s player get_min (if va < best_value then va else best_value) rest) v"
        by auto
      have "loop_ref s player get_min (if va < best_value then va else best_value) rest = min va ?X"
        using loop_ref_best [of s player get_min best_value va rest] True
        by (simp add: if_less_min)
      with okv have "ab_ok alpha (min beta va) (min va ?X) v" by simp
      from min_go [OF ok nocut ab this]
      have "ab_ok alpha beta (loop_ref s player get_min best_value (action # rest)) v"
        using True unfolding ref by simp
      moreover from mv va True nocut v
      have "get_value_loop s player get_min alpha beta best_value (action # rest) = Inr v"
        by simp
      ultimately show ?thesis by simp
    qed
  qed
qed

section \<open>The move \<^verbatim>\<open>next_move\<close> chooses\<close>

lemma ab_ok_exact: "ab_ok NegInf PosInf (Fin m) v \<Longrightarrow> v = Fin m"
  by (cases v) (auto simp: ab_ok_def less_extint_def)

lemma NegInf_less_PosInf: "NegInf < PosInf"
  by (simp add: less_extint_def)

lemma get_value_full_window:
  assumes "wf_state s" "p = CROSS \<or> p = NOUGHT"
  shows "get_value s p get_min NegInf PosInf = Inr (Fin (minimax s p get_min))"
  using get_value_ab [OF assms NegInf_less_PosInf, of get_min] by (auto dest: ab_ok_exact)

lemma loop_ref_successors:
  assumes "actions s \<noteq> []" "wf_state s"
  shows "loop_ref s p False NegInf (actions s) =
     Fin (Max ((\<lambda>s'. minimax s' p True) ` set (successors s)))"
proof -
  let ?A = "(\<lambda>s'. minimax s' p True) ` set (successors s)"
  from assms obtain a as where a: "actions s = a # as" by (cases "actions s") auto
  with assms(2) obtain s' where "move s (fst a) (snd a) = Inr s'"
    using action_legal [of s a] by auto
  with a have ne: "?A \<noteq> {}" by (simp add: successors_def)
  have fin: "finite ?A" by simp
  have img: "(\<lambda>s'. Fin (minimax s' p True)) ` set (successors s) = Fin ` ?A"
    by (simp add: image_image)
  show ?thesis
    unfolding loop_ref_def Let_def successors_def [symmetric]
    using Max_Fin [OF fin ne] by (simp add: img)
qed

lemma next_move_loop_best:
  assumes "wf_state s" "p = CROSS \<or> p = NOUGHT" "set as \<subseteq> set (actions s)"
    and "\<forall>a \<in> set ba. a \<in> set (actions s) \<and>
           (\<exists>s'. move s (fst a) (snd a) = Inr s' \<and> Fin (minimax s' p True) = bv)"
    and "ba = [] \<longrightarrow> bv = NegInf"
  shows "\<exists>res. next_move_loop s p ba bv as = Inr res \<and>
           (\<forall>a \<in> set res. a \<in> set (actions s) \<and>
              (\<exists>s'. move s (fst a) (snd a) = Inr s' \<and>
                    Fin (minimax s' p True) = loop_ref s p False bv as)) \<and>
           (res = [] \<longrightarrow> ba = [] \<and> as = [])"
  using assms(3-5)
proof (induction as arbitrary: ba bv)
  case Nil
  then show ?case by (simp add: loop_ref_Nil)
next
  case (Cons a as)
  from Cons.prems(1) have a: "a \<in> set (actions s)" and as: "set as \<subseteq> set (actions s)" by auto
  from action_legal [OF assms(1) a] obtain s' where
    mv: "move s (fst a) (snd a) = Inr s'" and wf': "wf_state s'" by auto
  let ?v = "Fin (minimax s' p True)"
  have gv: "get_value s' p True NegInf PosInf = Inr ?v"
    by (rule get_value_full_window [OF wf' assms(2)])
  let ?ba1 = "if bv < ?v then [a] else ba"
  let ?bv1 = "if bv < ?v then ?v else bv"
  let ?ba2 = "if ?v = ?bv1 then ?ba1 @ [a] else ?ba1"
  have step: "next_move_loop s p ba bv (a # as) = next_move_loop s p ?ba2 ?bv1 as"
    using mv gv by (simp add: Let_def)
  have bv1: "?bv1 = max bv ?v" by (auto simp: max_def)
  have inv: "\<forall>x \<in> set ?ba2. x \<in> set (actions s) \<and>
           (\<exists>t. move s (fst x) (snd x) = Inr t \<and> Fin (minimax t p True) = ?bv1)"
    using Cons.prems(2) a mv by auto
  have ne: "?ba2 \<noteq> []"
    using Cons.prems(3) by (auto simp: less_extint_def)
  then have ne': "?ba2 = [] \<longrightarrow> ?bv1 = NegInf" by simp
  from Cons.IH [OF as inv ne'] obtain res where
    res: "next_move_loop s p ?ba2 ?bv1 as = Inr res" and
    best: "\<forall>x \<in> set res. x \<in> set (actions s) \<and>
              (\<exists>t. move s (fst x) (snd x) = Inr t \<and>
                    Fin (minimax t p True) = loop_ref s p False ?bv1 as)" and
    nonempty: "res = [] \<longrightarrow> ?ba2 = [] \<and> as = []"
    by blast
  have "loop_ref s p False ?bv1 as = loop_ref s p False bv (a # as)"
    using loop_ref_best [of s p False bv ?v as] loop_ref_Cons [OF mv, of p False bv as]
    by (simp add: bv1)
  with res best nonempty ne step show ?case by auto
qed

lemma best_actions_best:
  assumes "wf_state s"
  shows "\<exists>res. best_actions s = Inr res \<and>
           (\<forall>a \<in> set res. a \<in> set (actions s) \<and>
              (\<exists>s'. move s (fst a) (snd a) = Inr s' \<and>
                    Fin (minimax s' (next_player s) True) = loop_ref s (next_player s) False NegInf (actions s))) \<and>
           (res = [] \<longrightarrow> actions s = [])"
proof -
  from assms have p: "next_player s = CROSS \<or> next_player s = NOUGHT"
    by (simp add: wf_state_def)
  from next_move_loop_best [OF assms p, of "actions s" "[]" NegInf]
  show ?thesis by (simp add: best_actions_def)
qed

lemma succs_member: "a \<in> set as \<Longrightarrow> move s (fst a) (snd a) = Inr s' \<Longrightarrow> s' \<in> set (succs s as)"
  by (induction as) (auto split: sum.splits)

lemma random_choice_member: "seq \<noteq> [] \<Longrightarrow> \<exists>x. random_choice rnd seq = Inr x \<and> x \<in> set seq"
  by (simp add: random_choice_def)

text \<open>
  Claim C1. On every board with no winner and no draw yet (so with a legal move), where
  \<open>p\<close> is the player to move, \<^verbatim>\<open>next_move\<close> returns, whatever the random draw, a legal
  move whose resulting position has the greatest exhaustive-minimax value for \<open>p\<close> among
  the positions all legal moves lead to. The value of a finished game is 1 when \<open>p\<close> has
  won, -1 when the opponent has won and 0 for a draw, at every depth and for either
  setting of \<^verbatim>\<open>get_min\<close>: the player passed down is the one to move at the root.
\<close>

theorem next_move_optimal:
  assumes "wf_state s" "winner s = NoWinner"
  shows "(\<exists>m s'. next_move s rnd = Inr m \<and> m \<in> set (actions s) \<and>
            move s (fst m) (snd m) = Inr s' \<and> s' \<in> set (successors s) \<and>
            minimax s' (next_player s) True =
              Max ((\<lambda>t. minimax t (next_player s) True) ` set (successors s))) \<and>
         (\<forall>t get_min alpha beta w. winner t = Won w \<longrightarrow>
            get_value t (next_player s) get_min alpha beta =
              Inr (Fin (if w = next_player s then 1 else - 1))) \<and>
         (\<forall>t get_min alpha beta. winner t = DRAW \<longrightarrow>
            get_value t (next_player s) get_min alpha beta = Inr (Fin 0))"
proof -
  from assms(1) have p: "next_player s = CROSS \<or> next_player s = NOUGHT"
    by (simp add: wf_state_def)
  have ne: "actions s \<noteq> []" by (rule no_winner_has_action [OF assms])
  from best_actions_best [OF assms(1)] ne obtain res where
    res: "best_actions s = Inr res" "res \<noteq> []" and
    best: "\<forall>a \<in> set res. a \<in> set (actions s) \<and>
              (\<exists>s'. move s (fst a) (snd a) = Inr s' \<and>
                 Fin (minimax s' (next_player s) True) =
                   loop_ref s (next_player s) False NegInf (actions s))"
    by auto
  from random_choice_member [OF res(2), of rnd] obtain m where
    m: "random_choice rnd res = Inr m" "m \<in> set res" by auto
  with best obtain s' where
    s': "m \<in> set (actions s)" "move s (fst m) (snd m) = Inr s'"
      "Fin (minimax s' (next_player s) True) = loop_ref s (next_player s) False NegInf (actions s)"
    by auto
  from s'(3) have "minimax s' (next_player s) True =
      Max ((\<lambda>t. minimax t (next_player s) True) ` set (successors s))"
    by (simp add: loop_ref_successors [OF ne assms(1)])
  moreover have "s' \<in> set (successors s)"
    using s'(1,2) by (simp add: successors_def succs_member)
  moreover have "next_move s rnd = Inr m"
    using res(1) m(1) by (simp add: next_move_def)
  ultimately show ?thesis
    using s'(1,2) get_value_Won [OF p] get_value_DRAW [OF p] by blast
qed

theorem next_move_optimal_witness:
  "wf_state tie_state \<and> winner tie_state = NoWinner \<and>
   (\<exists>m s'. next_move tie_state 0 = Inr m \<and> m \<in> set (actions tie_state) \<and>
      move tie_state (fst m) (snd m) = Inr s' \<and> s' \<in> set (successors tie_state) \<and>
      minimax s' NOUGHT True = Max ((\<lambda>t. minimax t NOUGHT True) ` set (successors tie_state))) \<and>
   winner won_state = Won CROSS \<and>
   get_value won_state NOUGHT False NegInf PosInf = Inr (Fin (- 1)) \<and>
   winner drawn_state = DRAW \<and>
   get_value drawn_state NOUGHT False NegInf PosInf = Inr (Fin 0)"
proof -
  have np: "next_player tie_state = NOUGHT" by (simp add: tie_state_def)
  from next_move_optimal [OF wf_tie_state winner_tie_state, of 0]
  show ?thesis
    using wf_tie_state winner_tie_state winner_won_state winner_drawn_state
    unfolding np by auto
qed

text \<open>
  Claim C2. Called with the full window, as \<^verbatim>\<open>next_move\<close> calls it, the pruned
  \<^verbatim>\<open>get_value\<close> returns exactly the exhaustive minimax value of the position. So each
  legal root move gets the same value from both searches, and whatever move
  \<^verbatim>\<open>next_move\<close> chooses has the greatest exhaustive value: the choice can differ from an
  exhaustive search's only among moves of equal value.
\<close>

theorem alpha_beta_equals_minimax:
  assumes "wf_state s" "p = CROSS \<or> p = NOUGHT"
  shows "get_value s p get_min NegInf PosInf = Inr (Fin (minimax s p get_min)) \<and>
         (\<forall>a \<in> set (actions s). \<exists>s'. move s (fst a) (snd a) = Inr s' \<and>
            get_value s' (next_player s) True NegInf PosInf =
              Inr (Fin (minimax s' (next_player s) True))) \<and>
         (\<forall>rnd m. next_move s rnd = Inr m \<longrightarrow>
            (\<exists>s'. move s (fst m) (snd m) = Inr s' \<and>
               minimax s' (next_player s) True =
                 Max ((\<lambda>t. minimax t (next_player s) True) ` set (successors s))))"
proof -
  from assms(1) have np: "next_player s = CROSS \<or> next_player s = NOUGHT"
    by (simp add: wf_state_def)
  have root: "get_value s p get_min NegInf PosInf = Inr (Fin (minimax s p get_min))"
    by (rule get_value_full_window [OF assms])
  have children: "\<exists>s'. move s (fst a) (snd a) = Inr s' \<and>
            get_value s' (next_player s) True NegInf PosInf =
              Inr (Fin (minimax s' (next_player s) True))"
    if "a \<in> set (actions s)" for a
    using action_legal [OF assms(1) that] get_value_full_window [OF _ np] by blast
  have chosen: "\<exists>s'. move s (fst m) (snd m) = Inr s' \<and>
               minimax s' (next_player s) True =
                 Max ((\<lambda>t. minimax t (next_player s) True) ` set (successors s))"
    if m: "next_move s rnd = Inr m" for rnd m
  proof -
    from best_actions_best [OF assms(1)] obtain res where
      res: "best_actions s = Inr res" "res = [] \<longrightarrow> actions s = []" and
      best: "\<forall>a \<in> set res. a \<in> set (actions s) \<and>
              (\<exists>s'. move s (fst a) (snd a) = Inr s' \<and>
                 Fin (minimax s' (next_player s) True) =
                   loop_ref s (next_player s) False NegInf (actions s))"
      by auto
    from m res(1) have rc: "random_choice rnd res = Inr m" by (simp add: next_move_def)
    then have "res \<noteq> []" by (auto simp: random_choice_def)
    with rc have "m \<in> set res" by (auto simp: random_choice_def)
    with best obtain s' where
      s': "m \<in> set (actions s)" "move s (fst m) (snd m) = Inr s'"
        "Fin (minimax s' (next_player s) True) = loop_ref s (next_player s) False NegInf (actions s)"
      by auto
    from s'(1) have "actions s \<noteq> []" by auto
    from s'(3) loop_ref_successors [OF this assms(1)] s'(2) show ?thesis by simp
  qed
  from root children chosen show ?thesis by blast
qed

theorem alpha_beta_equals_minimax_witness:
  "wf_state tie_state \<and>
   get_value tie_state NOUGHT False NegInf PosInf = Inr (Fin (minimax tie_state NOUGHT False)) \<and>
   minimax tie_state NOUGHT False = 0 \<and>
   (1, 2) \<in> set (actions tie_state) \<and>
   (\<exists>s'. move tie_state 1 2 = Inr s' \<and>
      get_value s' NOUGHT True NegInf PosInf = Inr (Fin (minimax s' NOUGHT True))) \<and>
   next_move tie_state 0 = Inr (1, 2) \<and>
   (\<exists>s'. move tie_state 1 2 = Inr s' \<and>
      minimax s' NOUGHT True = Max ((\<lambda>t. minimax t NOUGHT True) ` set (successors tie_state)))"
proof -
  have np: "next_player tie_state = NOUGHT" by (simp add: tie_state_def)
  have a: "(1, 2) \<in> set (actions tie_state)" by code_simp
  have m: "minimax tie_state NOUGHT False = 0" by code_simp
  have n: "next_move tie_state 0 = Inr (1, 2)" by code_simp
  from alpha_beta_equals_minimax [of tie_state NOUGHT False] wf_tie_state
  have "get_value tie_state NOUGHT False NegInf PosInf = Inr (Fin (minimax tie_state NOUGHT False))"
    and "\<forall>a \<in> set (actions tie_state). \<exists>s'. move tie_state (fst a) (snd a) = Inr s' \<and>
            get_value s' NOUGHT True NegInf PosInf = Inr (Fin (minimax s' NOUGHT True))"
    and "\<forall>rnd m. next_move tie_state rnd = Inr m \<longrightarrow>
            (\<exists>s'. move tie_state (fst m) (snd m) = Inr s' \<and>
               minimax s' NOUGHT True =
                 Max ((\<lambda>t. minimax t NOUGHT True) ` set (successors tie_state)))"
    unfolding np by auto
  with a m n wf_tie_state show ?thesis by force
qed

text \<open>
  Claim C4, amended. \<^verbatim>\<open>next_move\<close> has no check of its own. On a board with no empty
  cell it fails with the IndexError of \<^verbatim>\<open>random.choice\<close> on an empty list; on every
  board with an empty cell, also one that already has a winner, it returns one of the
  empty cells.
\<close>

theorem next_move_moveless_or_move:
  assumes "wf_state s"
  shows "(actions s = [] \<longrightarrow> next_move s rnd = Inl IndexError) \<and>
         (actions s \<noteq> [] \<longrightarrow> (\<exists>m. next_move s rnd = Inr m \<and> m \<in> set (actions s)))"
proof -
  have "next_move s rnd = Inl IndexError" if "actions s = []"
    using that by (simp add: next_move_def best_actions_def random_choice_def)
  moreover have "\<exists>m. next_move s rnd = Inr m \<and> m \<in> set (actions s)" if ne: "actions s \<noteq> []"
  proof -
    from best_actions_best [OF assms] ne obtain res where
      res: "best_actions s = Inr res" "res \<noteq> []" and sub: "\<forall>a \<in> set res. a \<in> set (actions s)"
      by auto
    from random_choice_member [OF res(2), of rnd] obtain m where
      "random_choice rnd res = Inr m" "m \<in> set res" by auto
    with res(1) sub show ?thesis by (auto simp: next_move_def)
  qed
  ultimately show ?thesis by blast
qed

theorem next_move_moveless_or_move_witness:
  "wf_state drawn_state \<and> actions drawn_state = [] \<and> next_move drawn_state 0 = Inl IndexError \<and>
   wf_state won_state \<and> actions won_state \<noteq> [] \<and>
   (\<exists>m. next_move won_state 0 = Inr m \<and> m \<in> set (actions won_state))"
proof -
  have wd: "wf_state drawn_state" by (simp add: wf_state_def drawn_state_def)
  have ww: "wf_state won_state" by (simp add: wf_state_def won_state_def)
  have ad: "actions drawn_state = []" by code_simp
  have aw: "actions won_state \<noteq> []" by code_simp
  from next_move_moveless_or_move [OF wd, of 0] next_move_moveless_or_move [OF ww, of 0] wd ww ad aw
  show ?thesis by simp
qed

text \<open>
  Claim C4 as stated fails: cross has won this board, and \<^verbatim>\<open>next_move\<close> returns a move.
\<close>

theorem next_move_on_won_board_counterexample:
  "winner won_state = Won CROSS \<and> winner won_state \<noteq> NoWinner \<and> next_move won_state 0 = Inr (1, 2)"
  by code_simp

text \<open>
  The candidate list always starts with one move twice: after the first \<^verbatim>\<open>if\<close> has
  set \<^verbatim>\<open>best_action\<close> to the one new best move, the second \<^verbatim>\<open>if\<close> appends that move
  again.
\<close>

lemma next_move_loop_first_twice:
  assumes "wf_state s" "p = CROSS \<or> p = NOUGHT" "set as \<subseteq> set (actions s)"
    and "ba = [] \<and> bv = NegInf \<or> (\<exists>a r. ba = a # a # r)"
  shows "\<exists>res. next_move_loop s p ba bv as = Inr res \<and>
           (res = [] \<and> ba = [] \<and> as = [] \<or> (\<exists>a r. res = a # a # r))"
  using assms(3,4)
proof (induction as arbitrary: ba bv)
  case Nil
  then show ?case by auto
next
  case (Cons a as)
  from Cons.prems(1) have a: "a \<in> set (actions s)" and as: "set as \<subseteq> set (actions s)" by auto
  from action_legal [OF assms(1) a] obtain s' where
    mv: "move s (fst a) (snd a) = Inr s'" and wf': "wf_state s'" by auto
  let ?v = "Fin (minimax s' p True)"
  have gv: "get_value s' p True NegInf PosInf = Inr ?v"
    by (rule get_value_full_window [OF wf' assms(2)])
  let ?ba1 = "if bv < ?v then [a] else ba"
  let ?bv1 = "if bv < ?v then ?v else bv"
  let ?ba2 = "if ?v = ?bv1 then ?ba1 @ [a] else ?ba1"
  have step: "next_move_loop s p ba bv (a # as) = next_move_loop s p ?ba2 ?bv1 as"
    using mv gv by (simp add: Let_def)
  have twice: "\<exists>x r. ?ba2 = x # x # r"
    using Cons.prems(2) by (auto simp: less_extint_def)
  then have "?ba2 = [] \<and> ?bv1 = NegInf \<or> (\<exists>x r. ?ba2 = x # x # r)" by blast
  from Cons.IH [OF as this] twice show ?case
    unfolding step by auto
qed

lemma best_actions_first_twice:
  assumes "wf_state s" "actions s \<noteq> []"
  shows "\<exists>a r. best_actions s = Inr (a # a # r)"
proof -
  from assms(1) have p: "next_player s = CROSS \<or> next_player s = NOUGHT"
    by (simp add: wf_state_def)
  from next_move_loop_first_twice [OF assms(1) p, of "actions s" "[]" NegInf] assms(2)
  show ?thesis by (auto simp: best_actions_def)
qed

text \<open>
  Claim C3 against the code. Here both legal moves have the value 0, and the list given
  to \<^verbatim>\<open>random.choice\<close> holds the first of them twice and the second once, so the two
  are not equally likely.
\<close>

theorem best_actions_tie_lists_first_twice:
  "winner tie_state = NoWinner \<and>
   map (\<lambda>t. minimax t NOUGHT True) (successors tie_state) = [0, 0] \<and>
   actions tie_state = [(1, 2), (2, 2)] \<and>
   best_actions tie_state = Inr [(1, 2), (1, 2), (2, 2)]"
  by code_simp

end
